theory Spec2Isabelle
  imports Main "HOL-Library.Word"
begin

section \<open>Protocol messages (types/api.ts)\<close>

text \<open>
  Every message is a \<open>BaseMessage\<close>: \<open>type\<close>, \<open>timestamp\<close>, \<open>data\<close> and
  \<open>message_id\<close>. The \<open>data\<close> object is modelled by one constructor per shape that the
  services build or inspect; \<open>NoData\<close> is a message object without a \<open>data\<close> property
  (the case that \<open>'data' in message\<close> tests for) and \<open>OtherData\<close> stands for the
  remaining shapes, none of which has a field the services read.
\<close>

datatype payload =
    NoData
  | ConnectionRequestData string string "string list"
  | ConnectionResponseData string string
  | AudioStartData string
  | AudioDataData string string nat bool
  | AudioStopData string nat nat
  | HeartbeatResponseData string
  | OtherData string

record message =
  mtype :: string
  timestamp :: string
  mdata :: payload
  message_id :: string

text \<open>\<open>response.data.session_id\<close>: the field, where the shape has one.\<close>

fun data_session_id :: "payload \<Rightarrow> string option" where
  "data_session_id (ConnectionResponseData status sid) = Some sid"
| "data_session_id (AudioStartData sid) = Some sid"
| "data_session_id (AudioDataData sid chunk sq fin) = Some sid"
| "data_session_id (AudioStopData sid sq dur) = Some sid"
| "data_session_id _ = None"

fun data_is_final :: "payload \<Rightarrow> bool option" where
  "data_is_final (AudioDataData sid chunk sq fin) = Some fin"
| "data_is_final _ = None"

fun data_sequence :: "payload \<Rightarrow> nat option" where
  "data_sequence (AudioDataData sid chunk sq fin) = Some sq"
| "data_sequence (AudioStopData sid sq dur) = Some sq"
| "data_sequence _ = None"

section \<open>The WebSocket service (services/websocket.ts)\<close>

subsection \<open>State\<close>

text \<open>
  The options object that \<open>connect\<close> passes to \<open>io\<close>, and the socket it gets back. Of
  the socket, the service reads only \<open>connected\<close>; the flag is written by the
  socket.io client, never by the service.
\<close>

record io_options =
  transports :: "string list"
  timeout :: nat
  reconnection :: bool
  reconnectionAttempts :: nat
  reconnectionDelay :: nat

record sock =
  connected :: bool
  options :: io_options

text \<open>
  A listener in \<open>eventListeners\<close> is either a callback of the application, opaque to
  the service and identified by a number, or the \<open>responseHandler\<close> closure of one
  \<open>sendWithResponse\<close> call, which captures the call's promise, its \<open>responseType\<close>
  and its \<open>timeoutId\<close>.
\<close>

datatype listener =
    External nat
  | ResponseHandler nat string nat

text \<open>The second argument of \<open>emit\<close>: a server message or one of the small objects.\<close>

datatype edata =
    MessageEvent message
  | DisconnectEvent string
  | ReconnectAttemptEvent nat
  | ReconnectEvent nat
  | SessionIdEvent string

text \<open>How a promise was settled; a promise absent from \<open>settled\<close> is pending.\<close>

datatype outcome =
    ResolvedVoid
  | ResolvedWith message
  | Rejected string

text \<open>
  A running timer: the \<open>setTimeout\<close> of a \<open>sendWithResponse\<close> call (delay in ms,
  promise, response type) or the \<open>setInterval\<close> of the heartbeat (period in ms).
\<close>

datatype timer =
    ResponseTimeout nat nat string
  | HeartbeatTimer nat

text \<open>
  The fields of the class, followed by the parts of the runtime the class acts on:
  the timer table, the promises it created, the messages \<open>socket.emit\<close> accepted
  (\<open>transmitted\<close>), whether the n-th call of \<open>socket.emit\<close> throws (\<open>emitThrows\<close>,
  the case the \<open>catch\<close> of \<open>sendMessage\<close> is written for), and two traces: the calls
  of \<open>emit\<close> (\<open>emitted\<close>) and the calls of application callbacks (\<open>notified\<close>).
  Application callbacks are taken to observe only; console logging is left out.
\<close>

record service =
  socket :: "sock option"
  reconnectAttempts :: nat
  maxReconnectAttempts :: nat
  reconnectInterval :: nat
  heartbeatInterval :: "nat option"
  isConnecting :: bool
  messageQueue :: "message list"
  eventListeners :: "string \<Rightarrow> listener list option"
  sessionId :: "string option"
  connectPromise :: "nat option"
  timers :: "nat \<Rightarrow> timer option"
  nextTimer :: nat
  settled :: "nat \<Rightarrow> outcome option"
  nextPromise :: nat
  transmitted :: "message list"
  emitAttempts :: nat
  emitThrows :: "nat \<Rightarrow> bool"
  emitted :: "(string \<times> edata) list"
  notified :: "(nat \<times> edata) list"

text \<open>The state after the constructor, for a transport that behaves as \<open>f\<close> says.\<close>

definition new_service :: "(nat \<Rightarrow> bool) \<Rightarrow> service" where
  "new_service f =
     \<lparr> socket = None, reconnectAttempts = 0, maxReconnectAttempts = 5,
       reconnectInterval = 1000, heartbeatInterval = None, isConnecting = False,
       messageQueue = [], eventListeners = (\<lambda>ev. None), sessionId = None,
       connectPromise = None, timers = (\<lambda>t. None), nextTimer = 0,
       settled = (\<lambda>p. None), nextPromise = 0, transmitted = [], emitAttempts = 0,
       emitThrows = f, emitted = [], notified = [] \<rparr>"

subsection \<open>Sending and the message queue\<close>

definition isConnected :: "service \<Rightarrow> bool" where
  "isConnected s = (case socket s of None \<Rightarrow> False | Some k \<Rightarrow> connected k)"

text \<open>\<open>this.socket.emit('message', message)\<close>: the result is whether it threw.\<close>

definition socket_emit :: "message \<Rightarrow> service \<Rightarrow> bool \<times> service" where
  "socket_emit m s =
     (let n = emitAttempts s; s1 = s\<lparr>emitAttempts := n + 1\<rparr>
      in if emitThrows s n then (True, s1)
         else (False, s1\<lparr>transmitted := transmitted s1 @ [m]\<rparr>))"

definition sendMessage :: "message \<Rightarrow> service \<Rightarrow> service" where
  "sendMessage m s =
     (if \<not> isConnected s then s\<lparr>messageQueue := messageQueue s @ [m]\<rparr>
      else (case socket_emit m s of
              (True, s1) \<Rightarrow> s1\<lparr>messageQueue := messageQueue s1 @ [m]\<rparr>
            | (False, s1) \<Rightarrow> s1))"

text \<open>
  \<open>flushMessageQueue\<close>: the loop runs while the queue is not empty and the socket is
  connected. A message whose emit throws goes back to the end of the queue, so the loop
  need not end; not returning is the value \<open>None\<close>.
\<close>

partial_function (option) flushMessageQueue :: "service \<Rightarrow> service option" where
  "flushMessageQueue s =
     (if messageQueue s \<noteq> [] \<and> isConnected s
      then (case messageQueue s of
              [] \<Rightarrow> Some s
            | m # rest \<Rightarrow> flushMessageQueue (sendMessage m (s\<lparr>messageQueue := rest\<rparr>)))
      else Some s)"

subsection \<open>Listeners, promises and timers\<close>

definition on :: "string \<Rightarrow> listener \<Rightarrow> service \<Rightarrow> service" where
  "on ev cb s =
     (case eventListeners s ev of
        None \<Rightarrow> s\<lparr>eventListeners := (eventListeners s)(ev \<mapsto> [cb])\<rparr>
      | Some ls \<Rightarrow> s\<lparr>eventListeners := (eventListeners s)(ev \<mapsto> ls @ [cb])\<rparr>)"

text \<open>
  \<open>off\<close>: without a callback the entry of the event is deleted; with one, its first
  occurrence is spliced out of the array (\<open>indexOf\<close>, then \<open>splice(index, 1)\<close>).
\<close>

definition off :: "string \<Rightarrow> listener option \<Rightarrow> service \<Rightarrow> service" where
  "off ev cbo s =
     (case cbo of
        None \<Rightarrow> s\<lparr>eventListeners := (eventListeners s)(ev := None)\<rparr>
      | Some cb \<Rightarrow>
          (case eventListeners s ev of
             None \<Rightarrow> s
           | Some ls \<Rightarrow> s\<lparr>eventListeners := (eventListeners s)(ev \<mapsto> remove1 cb ls)\<rparr>))"

text \<open>A promise settles once: \<open>resolve\<close> and \<open>reject\<close> on a settled promise do nothing.\<close>

definition settle :: "nat \<Rightarrow> outcome \<Rightarrow> service \<Rightarrow> service" where
  "settle p v s = (if settled s p = None then s\<lparr>settled := (settled s)(p \<mapsto> v)\<rparr> else s)"

definition clearTimer :: "nat \<Rightarrow> service \<Rightarrow> service" where
  "clearTimer t s = s\<lparr>timers := (timers s)(t := None)\<rparr>"

text \<open>The \<open>type\<close> property of the object an event carries, if it has one.\<close>

fun edata_type :: "edata \<Rightarrow> string option" where
  "edata_type (MessageEvent m) = Some (mtype m)"
| "edata_type _ = None"

text \<open>
  One callback of the \<open>forEach\<close> in \<open>emit\<close>. An application callback is recorded. The
  \<open>responseHandler\<close> of \<open>sendWithResponse\<close> compares the type, and on a match clears
  its timeout, removes itself and resolves its promise.
\<close>

fun call_listener :: "listener \<Rightarrow> edata \<Rightarrow> service \<Rightarrow> service" where
  "call_listener (External n) d s = s\<lparr>notified := notified s @ [(n, d)]\<rparr>"
| "call_listener (ResponseHandler p rt t) d s =
     (case d of
        MessageEvent m \<Rightarrow>
          if mtype m = rt
          then settle p (ResolvedWith m)
                 (off rt (Some (ResponseHandler p rt t)) (clearTimer t s))
          else s
      | _ \<Rightarrow> s)"

text \<open>
  \<open>listeners.forEach(callback => ...)\<close> visits the indices below the length the array
  had when the loop began, and at each index calls what the array holds there at that
  moment. A handler that splices itself out moves the later entries down by one, and
  the entry that takes its place is not visited.
\<close>

function emit_from :: "nat \<Rightarrow> nat \<Rightarrow> string \<Rightarrow> edata \<Rightarrow> service \<Rightarrow> service" where
  "emit_from k len ev d s =
     (if k < len
      then (case eventListeners s ev of
              None \<Rightarrow> emit_from (k + 1) len ev d s
            | Some ls \<Rightarrow>
                if k < length ls
                then emit_from (k + 1) len ev d (call_listener (ls ! k) d s)
                else emit_from (k + 1) len ev d s)
      else s)"
  by pat_completeness auto
termination
  by (relation "measure (\<lambda>(k, len, ev, d, s). len - k)") auto

declare emit_from.simps [simp del]

definition emit :: "string \<Rightarrow> edata \<Rightarrow> service \<Rightarrow> service" where
  "emit ev d s =
     (let s1 = s\<lparr>emitted := emitted s @ [(ev, d)]\<rparr>
      in case eventListeners s1 ev of
           None \<Rightarrow> s1
         | Some ls \<Rightarrow> emit_from 0 (length ls) ev d s1)"

subsection \<open>Session id and inbound messages\<close>

definition setSessionId :: "string \<Rightarrow> service \<Rightarrow> service" where
  "setSessionId sid s = emit ''session_id_changed'' (SessionIdEvent sid) (s\<lparr>sessionId := Some sid\<rparr>)"

text \<open>
  \<open>handleMessage\<close>: a \<open>connection_response\<close> with a \<open>data\<close> property and a truthy
  (non-empty) \<open>session_id\<close> sets the session id; then the message is emitted under its
  type and under \<open>message\<close>.
\<close>

definition handleMessage :: "message \<Rightarrow> service \<Rightarrow> service" where
  "handleMessage m s =
     (let s1 = (if mtype m = ''connection_response'' \<and> mdata m \<noteq> NoData
                then (case data_session_id (mdata m) of
                        Some sid \<Rightarrow> if sid \<noteq> [] then setSessionId sid s else s
                      | None \<Rightarrow> s)
                else s)
      in emit ''message'' (MessageEvent m) (emit (mtype m) (MessageEvent m) s1))"

subsection \<open>Requests that await a response\<close>

text \<open>
  \<open>sendWithResponse\<close>: the executor of the promise starts the 10 s timeout, registers
  the handler under the response type and sends the message. The result is the promise.
\<close>

definition sendWithResponse :: "message \<Rightarrow> string \<Rightarrow> service \<Rightarrow> nat \<times> service" where
  "sendWithResponse m rt s =
     (let p = nextPromise s; t = nextTimer s;
          s1 = s\<lparr>nextPromise := p + 1, nextTimer := t + 1,
                 timers := (timers s)(t \<mapsto> ResponseTimeout 10000 p rt)\<rparr>
      in (p, sendMessage m (on rt (ResponseHandler p rt t) s1)))"

text \<open>The timestamps and message ids come from the clock and \<open>Math.random\<close>: parameters.\<close>

definition sendConnectionRequest ::
  "string \<Rightarrow> string \<Rightarrow> string \<Rightarrow> string list \<Rightarrow> service \<Rightarrow> nat \<times> service" where
  "sendConnectionRequest now mid clientId capabilities s =
     sendWithResponse
       \<lparr> mtype = ''connection_request'', timestamp = now,
         mdata = ConnectionRequestData clientId ''1.0.0'' capabilities, message_id = mid \<rparr>
       ''connection_response'' s"

definition sendAudioData ::
  "string \<Rightarrow> string \<Rightarrow> string \<Rightarrow> string \<Rightarrow> nat \<Rightarrow> bool \<Rightarrow> service \<Rightarrow> service" where
  "sendAudioData now mid sid audioData sq isFinal s =
     sendMessage
       \<lparr> mtype = ''audio_data'', timestamp = now,
         mdata = AudioDataData sid audioData sq isFinal, message_id = mid \<rparr> s"

definition sendHeartbeatResponse :: "string \<Rightarrow> string \<Rightarrow> service \<Rightarrow> service" where
  "sendHeartbeatResponse now mid s =
     sendMessage
       \<lparr> mtype = ''heartbeat_response'', timestamp = now,
         mdata = HeartbeatResponseData now, message_id = mid \<rparr> s"

subsection \<open>Heartbeat\<close>

definition stopHeartbeat :: "service \<Rightarrow> service" where
  "stopHeartbeat s =
     (case heartbeatInterval s of
        None \<Rightarrow> s
      | Some t \<Rightarrow> (clearTimer t s)\<lparr>heartbeatInterval := None\<rparr>)"

definition startHeartbeat :: "service \<Rightarrow> service" where
  "startHeartbeat s =
     (let s1 = stopHeartbeat s; t = nextTimer s1
      in s1\<lparr>nextTimer := t + 1, timers := (timers s1)(t \<mapsto> HeartbeatTimer 30000),
            heartbeatInterval := Some t\<rparr>)"

text \<open>
  A timer comes due. A cleared timer does nothing. The timeout of \<open>sendWithResponse\<close>
  runs once: it removes the handler and rejects the promise. The heartbeat interval
  stays registered and sends a \<open>heartbeat_response\<close> when the socket is connected.
\<close>

definition fire_timer :: "nat \<Rightarrow> string \<Rightarrow> string \<Rightarrow> service \<Rightarrow> service" where
  "fire_timer t now mid s =
     (case timers s t of
        None \<Rightarrow> s
      | Some (ResponseTimeout delay p rt) \<Rightarrow>
          settle p (Rejected (''Timeout waiting for '' @ rt))
            (off rt (Some (ResponseHandler p rt t)) (clearTimer t s))
      | Some (HeartbeatTimer period) \<Rightarrow>
          if isConnected s then sendHeartbeatResponse now mid s else s)"

subsection \<open>Connection lifecycle\<close>

text \<open>
  \<open>connect\<close> returns at once with a resolved promise when the socket is connected or a
  connection is being made. Otherwise it creates the socket with the options below;
  \<open>io_error\<close> is the error \<open>io\<close> throws, if it throws. The promise is settled later
  by the \<open>connect\<close> or the \<open>connect_error\<close> handler.
\<close>

definition connect :: "string option \<Rightarrow> service \<Rightarrow> nat \<times> service" where
  "connect io_error s =
     (let p = nextPromise s; s0 = s\<lparr>nextPromise := p + 1\<rparr>
      in if isConnected s \<or> isConnecting s then (p, settle p ResolvedVoid s0)
         else (case io_error of
                 Some e \<Rightarrow> (p, settle p (Rejected e) (s0\<lparr>isConnecting := False\<rparr>))
               | None \<Rightarrow>
                   (p, s0\<lparr>isConnecting := True,
                          socket := Some \<lparr> connected = False,
                            options = \<lparr> transports = [''websocket''], timeout = 10000,
                              reconnection = True,
                              reconnectionAttempts = maxReconnectAttempts s,
                              reconnectionDelay = reconnectInterval s \<rparr> \<rparr>,
                          connectPromise := Some p\<rparr>)))"

text \<open>The socket.io client sets the flag of the socket before it calls a handler.\<close>

definition set_connected :: "bool \<Rightarrow> service \<Rightarrow> service" where
  "set_connected b s =
     (case socket s of None \<Rightarrow> s | Some k \<Rightarrow> s\<lparr>socket := Some (k\<lparr>connected := b\<rparr>)\<rparr>)"

definition settle_connect :: "outcome \<Rightarrow> service \<Rightarrow> service" where
  "settle_connect v s = (case connectPromise s of None \<Rightarrow> s | Some p \<Rightarrow> settle p v s)"

text \<open>The handlers that \<open>connect\<close> registers on the socket.\<close>

definition connect_handler :: "service \<Rightarrow> service" where
  "connect_handler s =
     settle_connect ResolvedVoid (startHeartbeat (s\<lparr>isConnecting := False, reconnectAttempts := 0\<rparr>))"

definition connect_error_handler :: "string \<Rightarrow> service \<Rightarrow> service" where
  "connect_error_handler e s = settle_connect (Rejected e) (s\<lparr>isConnecting := False\<rparr>)"

definition disconnect_handler :: "string \<Rightarrow> service \<Rightarrow> service" where
  "disconnect_handler reason s =
     emit ''disconnect'' (DisconnectEvent reason) ((stopHeartbeat s)\<lparr>sessionId := None\<rparr>)"

text \<open>The handlers of \<open>setupEventHandlers\<close>.\<close>

definition message_events :: "string list" where
  "message_events =
     [''message'', ''connection_response'', ''stt_response'', ''llm_response'',
      ''llm_stream'', ''mcp_response'', ''status_update'', ''error'', ''heartbeat'']"

definition reconnect_attempt_handler :: "nat \<Rightarrow> service \<Rightarrow> service" where
  "reconnect_attempt_handler n s = emit ''reconnect_attempt'' (ReconnectAttemptEvent n) s"

definition reconnect_handler :: "nat \<Rightarrow> service \<Rightarrow> service option" where
  "reconnect_handler n s =
     (case flushMessageQueue s of
        None \<Rightarrow> None
      | Some s1 \<Rightarrow> Some (emit ''reconnect'' (ReconnectEvent n) s1))"

text \<open>
  An event of the socket. The service has handlers for the events named here;
  \<open>SockOther\<close> is any other event of the socket.io client (\<open>reconnect_failed\<close>,
  \<open>reconnect_error\<close>, \<open>ping\<close>, ...), for which nothing is registered. A message event
  carries the name it is delivered under.
\<close>

datatype socket_event =
    SockConnect
  | SockConnectError string
  | SockDisconnect string
  | SockMessage string message
  | SockReconnectAttempt nat
  | SockReconnect nat
  | SockOther string

fun handle_socket_event :: "socket_event \<Rightarrow> service \<Rightarrow> service option" where
  "handle_socket_event SockConnect s = Some (connect_handler (set_connected True s))"
| "handle_socket_event (SockConnectError e) s = Some (connect_error_handler e s)"
| "handle_socket_event (SockDisconnect reason) s = Some (disconnect_handler reason (set_connected False s))"
| "handle_socket_event (SockMessage name m) s =
     (if name \<in> set message_events then Some (handleMessage m s) else Some s)"
| "handle_socket_event (SockReconnectAttempt n) s = Some (reconnect_attempt_handler n s)"
| "handle_socket_event (SockReconnect n) s = reconnect_handler n s"
| "handle_socket_event (SockOther name) s = Some s"

text \<open>
  \<open>disconnect\<close>. \<open>socket.disconnect()\<close> of the socket.io client closes a connected
  socket and calls the \<open>disconnect\<close> handler with the reason \<open>io client disconnect\<close>
  before it returns.
\<close>

definition disconnect :: "service \<Rightarrow> service" where
  "disconnect s =
     (case socket s of
        None \<Rightarrow> s
      | Some k \<Rightarrow>
          (let s1 = stopHeartbeat s;
               s2 = (if connected k
                     then disconnect_handler ''io client disconnect'' (set_connected False s1)
                     else s1)
           in s2\<lparr>socket := None, sessionId := None\<rparr>))"

subsection \<open>Runs of the service\<close>

text \<open>
  What can happen to the service: a call of its public interface by the application
  (the other \<open>send...\<close> methods build a message and call \<open>sendMessage\<close>), an event of
  the socket, or a timer that comes due (with the clock and the message id the
  heartbeat would use).
\<close>

datatype action =
    Connect "string option"
  | Disconnect
  | SendMessage message
  | SendConnectionRequest string string string "string list"
  | On string nat
  | Off string "nat option"
  | SetSessionId string
  | Socket socket_event
  | TimerDue nat string string

fun step :: "action \<Rightarrow> service \<Rightarrow> service option" where
  "step (Connect io_error) s = Some (snd (connect io_error s))"
| "step Disconnect s = Some (disconnect s)"
| "step (SendMessage m) s = Some (sendMessage m s)"
| "step (SendConnectionRequest now mid clientId caps) s =
     Some (snd (sendConnectionRequest now mid clientId caps s))"
| "step (On ev n) s = Some (on ev (External n) s)"
| "step (Off ev cbo) s = Some (off ev (map_option External cbo) s)"
| "step (SetSessionId sid) s = Some (setSessionId sid s)"
| "step (Socket e) s = handle_socket_event e s"
| "step (TimerDue t now mid) s = Some (fire_timer t now mid s)"

fun exec :: "action list \<Rightarrow> service \<Rightarrow> service option" where
  "exec [] s = Some s"
| "exec (a # as) s = (case step a s of None \<Rightarrow> None | Some s1 \<Rightarrow> exec as s1)"

section \<open>The audio service (services/audio.ts)\<close>

text \<open>
  Errors are JavaScript \<open>Error\<close> objects, told apart by their message.
\<close>

datatype js_error = Error string

text \<open>
  What the service emits to its listeners. The \<open>audio_chunk\<close> event carries \<open>data\<close>,
  \<open>sequence\<close> and \<open>timestamp\<close> and nothing else; \<open>data\<close> is the base64 text of the
  blob and is represented by the blob. \<open>recording_stopped\<close> carries the duration, a
  difference of two clock readings, and \<open>sequenceCount\<close>.
\<close>

datatype audio_event =
    RecordingStarted nat
  | AudioChunk string nat nat
  | RecordingStopped int nat
  | RecorderError

text \<open>
  The fields of the class that recording touches, followed by the parts of the runtime
  the class acts on. \<open>mediaRecorder\<close> names the \<open>MediaRecorder\<close> object the field refers
  to; \<open>recorders\<close> counts the objects created so far, which are numbered from 0;
  \<open>onstop\<close> lists the recorders on which \<open>stopRecording\<close> has installed its handler.
  Three kinds of call are suspended at an \<open>await\<close>: \<open>starting\<close> counts the calls of
  \<open>startRecording\<close> that wait for \<open>getUserMedia\<close>, \<open>processing\<close> holds the blobs of
  the \<open>processAudioChunk\<close> calls that wait for the conversion, and \<open>stopping\<close> holds the
  durations computed by the \<open>onstop\<close> handlers that wait for \<open>createAudioBuffer\<close>.
  \<open>audioEmitted\<close> is the trace of \<open>emit\<close>; listeners are taken to observe only.
\<close>

record audio_service =
  stream :: bool
  mediaRecorder :: "nat option"
  audioChunks :: "string list"
  isRecording :: bool
  startTime :: nat
  sequence :: nat
  recorders :: nat
  onstop :: "nat list"
  starting :: nat
  processing :: "string list"
  stopping :: "int list"
  audioEmitted :: "audio_event list"

text \<open>
  \<open>this.sequence++\<close> on a JavaScript number: exact below \<open>2^53\<close>; at \<open>2^53\<close> the sum
  rounds back to \<open>2^53\<close>.
\<close>

definition js_incr :: "nat \<Rightarrow> nat" where
  "js_incr n = (if n < 2 ^ 53 then n + 1 else n)"

text \<open>
  \<open>startRecording\<close> up to its \<open>await\<close>: the guard throws when \<open>isRecording\<close> is set;
  otherwise the call asks for the microphone and is suspended. Nothing is written
  before the \<open>await\<close>, and \<open>isRecording\<close> in particular is not.
\<close>

definition startRecording :: "audio_service \<Rightarrow> (js_error + unit) \<times> audio_service" where
  "startRecording s =
     (if isRecording s then (Inl (Error ''Already recording''), s)
      else (Inr (), s\<lparr>starting := starting s + 1\<rparr>))"

text \<open>
  Where the rest of the \<open>try\<close> block can fail, with the text of the error:
  \<open>getUserMedia\<close> rejects, the \<open>MediaRecorder\<close> constructor throws, or
  \<open>mediaRecorder.start\<close> throws.
\<close>

datatype start_failure =
    GetUserMediaRejects string
  | MediaRecorderThrows string
  | StartThrows string

text \<open>
  A suspended call of \<open>startRecording\<close> resumes; \<open>now\<close> is \<open>Date.now()\<close>. It does not
  test \<open>isRecording\<close> again. On success it stores the stream, creates a recorder with
  the \<open>ondataavailable\<close> and \<open>onerror\<close> handlers of \<open>setupMediaRecorder\<close>, empties
  \<open>audioChunks\<close>, sets \<open>isRecording\<close>, and sets \<open>sequence\<close> to 0. A failure is caught
  and thrown again as \<open>Failed to start recording\<close>; what was assigned before it stays.
  The result is how the promise of the call settles, or \<open>None\<close> when no call waits.
\<close>

definition startRecording_resume ::
  "start_failure option \<Rightarrow> nat \<Rightarrow> audio_service \<Rightarrow> (js_error + unit) option \<times> audio_service" where
  "startRecording_resume failure now s =
     (if starting s = 0 then (None, s)
      else (let s0 = s\<lparr>starting := starting s - 1\<rparr>
            in case failure of
                 Some (GetUserMediaRejects e) \<Rightarrow>
                   (Some (Inl (Error (''Failed to start recording: '' @ e))), s0)
               | Some (MediaRecorderThrows e) \<Rightarrow>
                   (Some (Inl (Error (''Failed to start recording: '' @ e))), s0\<lparr>stream := True\<rparr>)
               | Some (StartThrows e) \<Rightarrow>
                   (Some (Inl (Error (''Failed to start recording: '' @ e))),
                    s0\<lparr>stream := True, mediaRecorder := Some (recorders s),
                       recorders := recorders s + 1, audioChunks := []\<rparr>)
               | None \<Rightarrow>
                   (Some (Inr ()),
                    s0\<lparr>stream := True, mediaRecorder := Some (recorders s),
                       recorders := recorders s + 1, audioChunks := [],
                       isRecording := True, startTime := now, sequence := 0,
                       audioEmitted := audioEmitted s @ [RecordingStarted now]\<rparr>)))"

text \<open>
  The \<open>ondataavailable\<close> handler of \<open>setupMediaRecorder\<close>: a non-empty blob is stored,
  the counter is incremented, and \<open>processAudioChunk\<close> runs up to its first \<open>await\<close>.
  The handler refers to the service, not to the recorder it is installed on.
\<close>

definition ondataavailable :: "string \<Rightarrow> audio_service \<Rightarrow> audio_service" where
  "ondataavailable blob s =
     (if length blob > 0
      then s\<lparr>audioChunks := audioChunks s @ [blob], sequence := js_incr (sequence s),
             processing := processing s @ [blob]\<rparr>
      else s)"

text \<open>
  The suspended \<open>processAudioChunk\<close> at position \<open>i\<close> resumes: it emits the chunk with
  the value \<open>this.sequence\<close> has at that moment, or only logs when the conversion
  \<open>failed\<close>.
\<close>

definition processAudioChunk_resume ::
  "nat \<Rightarrow> bool \<Rightarrow> nat \<Rightarrow> audio_service \<Rightarrow> audio_service" where
  "processAudioChunk_resume i failed now s =
     (if i < length (processing s)
      then (let blob = processing s ! i;
                rest = take i (processing s) @ drop (i + 1) (processing s)
            in if failed then s\<lparr>processing := rest\<rparr>
               else s\<lparr>processing := rest,
                      audioEmitted := audioEmitted s @ [AudioChunk blob (sequence s) now]\<rparr>)
      else s)"

text \<open>The \<open>onerror\<close> handler of \<open>setupMediaRecorder\<close>.\<close>

definition recorder_onerror :: "audio_service \<Rightarrow> audio_service" where
  "recorder_onerror s = s\<lparr>audioEmitted := audioEmitted s @ [RecorderError]\<rparr>"

definition cleanup :: "audio_service \<Rightarrow> audio_service" where
  "cleanup s = s\<lparr>stream := False, mediaRecorder := None, audioChunks := []\<rparr>"

text \<open>
  \<open>stopRecording\<close>: the guard, then the executor of the promise, which installs
  \<open>onstop\<close> on the recorder the field refers to and calls its \<open>stop\<close>; \<open>stop_error\<close>
  is what \<open>stop\<close> throws, if it throws, and the promise is rejected with it. \<open>Inr ()\<close>
  is a promise that is settled by the handler.
\<close>

definition stopRecording ::
  "string option \<Rightarrow> audio_service \<Rightarrow> (js_error + unit) \<times> audio_service" where
  "stopRecording stop_error s =
     (case mediaRecorder s of
        None \<Rightarrow> (Inl (Error ''Not currently recording''), s)
      | Some r \<Rightarrow>
          if \<not> isRecording s then (Inl (Error ''Not currently recording''), s)
          else (case stop_error of
                  Some e \<Rightarrow> (Inl (Error e), s\<lparr>onstop := r # onstop s\<rparr>)
                | None \<Rightarrow> (Inr (), s\<lparr>onstop := r # onstop s\<rparr>)))"

text \<open>
  The \<open>stop\<close> event of recorder \<open>r\<close>. Only a recorder on which \<open>stopRecording\<close> was
  called has a handler for it. The handler computes the duration and is suspended in
  \<open>createAudioBuffer\<close>.
\<close>

definition recorder_onstop :: "nat \<Rightarrow> nat \<Rightarrow> audio_service \<Rightarrow> audio_service" where
  "recorder_onstop r now s =
     (if r \<in> set (onstop s)
      then s\<lparr>stopping := stopping s @ [int now - int (startTime s)]\<rparr>
      else s)"

text \<open>
  The suspended \<open>onstop\<close> handler at position \<open>i\<close> resumes: it clears \<open>isRecording\<close>,
  sets the counter to 0, cleans up and emits \<open>recording_stopped\<close>; when
  \<open>createAudioBuffer\<close> \<open>failed\<close> it only rejects the promise of \<open>stopRecording\<close>.
\<close>

definition recorder_onstop_resume :: "nat \<Rightarrow> bool \<Rightarrow> audio_service \<Rightarrow> audio_service" where
  "recorder_onstop_resume i failed s =
     (if i < length (stopping s)
      then (let duration = stopping s ! i;
                s0 = s\<lparr>stopping := take i (stopping s) @ drop (i + 1) (stopping s)\<rparr>
            in if failed then s0
               else (let s1 = cleanup (s0\<lparr>isRecording := False, sequence := 0\<rparr>)
                     in s1\<lparr>audioEmitted :=
                             audioEmitted s1 @ [RecordingStopped duration (sequence s1)]\<rparr>))
      else s)"

text \<open>
  What can happen to the audio service: a call of \<open>startRecording\<close> or \<open>stopRecording\<close>
  by the application, a suspended call that resumes, or an event of a recorder, which
  carries the number of the recorder. A recorder that was not created has no events.
\<close>

datatype audio_action =
    StartRecording
  | MediaSettled "start_failure option" nat
  | StopRecording "string option"
  | DataAvailable nat string
  | ChunkProcessed nat bool nat
  | RecorderFailed nat
  | RecorderStopped nat nat
  | BufferCreated nat bool

fun audio_step :: "audio_action \<Rightarrow> audio_service \<Rightarrow> audio_service" where
  "audio_step StartRecording s = snd (startRecording s)"
| "audio_step (MediaSettled failure now) s = snd (startRecording_resume failure now s)"
| "audio_step (StopRecording stop_error) s = snd (stopRecording stop_error s)"
| "audio_step (DataAvailable r blob) s = (if r < recorders s then ondataavailable blob s else s)"
| "audio_step (ChunkProcessed i failed now) s = processAudioChunk_resume i failed now s"
| "audio_step (RecorderFailed r) s = (if r < recorders s then recorder_onerror s else s)"
| "audio_step (RecorderStopped r now) s = (if r < recorders s then recorder_onstop r now s else s)"
| "audio_step (BufferCreated i failed) s = recorder_onstop_resume i failed s"

definition run_audio :: "audio_action list \<Rightarrow> audio_service \<Rightarrow> audio_service" where
  "run_audio as s = foldl (\<lambda>s a. audio_step a s) s as"

text \<open>The sequence numbers of the chunks in a trace, in the order of emission.\<close>

fun chunk_sequences :: "audio_event list \<Rightarrow> nat list" where
  "chunk_sequences [] = []"
| "chunk_sequences (AudioChunk blob sq now # es) = sq # chunk_sequences es"
| "chunk_sequences (e # es) = chunk_sequences es"

text \<open>
  The schedule of recorder \<open>r\<close> in which each blob is converted before the recorder
  delivers the next.
\<close>

definition prompt_schedule :: "nat \<Rightarrow> string list \<Rightarrow> nat \<Rightarrow> audio_action list" where
  "prompt_schedule r blobs now =
     concat (map (\<lambda>b. [DataAvailable r b, ChunkProcessed 0 False now]) blobs)"

text \<open>
  The \<open>audio_chunk\<close> listener of the voice control screen. \<open>captured\<close> is the
  \<open>sessionId\<close> of the \<open>appState\<close> the closure holds: with a non-empty one it sends the
  chunk as \<open>audio_data\<close>, with \<open>false\<close> for \<open>isFinal\<close>.
\<close>

definition screen_audio_chunk ::
  "string option \<Rightarrow> string \<Rightarrow> string \<Rightarrow> audio_event \<Rightarrow> service \<Rightarrow> service" where
  "screen_audio_chunk captured now mid e s =
     (case (captured, e) of
        (Some sid, AudioChunk blob sq ts) \<Rightarrow>
          if sid \<noteq> [] then sendAudioData now mid sid blob sq False s else s
      | _ \<Rightarrow> s)"

text \<open>
  The listener is registered by \<open>setupEventListeners\<close>, which the effect with the
  empty dependency list runs once, after the first render. The \<open>appState\<close> it reads is
  the initial one, whose \<open>connection\<close> has no \<open>sessionId\<close>.
\<close>

definition initial_sessionId :: "string option" where
  "initial_sessionId = None"

definition audio_chunk_listener :: "string \<Rightarrow> string \<Rightarrow> audio_event \<Rightarrow> service \<Rightarrow> service" where
  "audio_chunk_listener = screen_audio_chunk initial_sessionId"

section \<open>The native recorder module (AudioRecorderModule.java)\<close>

text \<open>
  \<open>sequenceCounter\<close> is a Java \<open>int\<close>: 32 bits, read as a signed value.
\<close>

datatype promise_result =
    Resolve string
  | Reject string string

record recorder_module =
  nativeRecording :: bool
  audioRecord :: bool
  recordingThread :: bool
  sequenceCounter :: "32 word"
  nativeEvents :: "(string \<times> int option) list"

definition getNextSequence :: "recorder_module \<Rightarrow> int \<times> recorder_module" where
  "getNextSequence m =
     (let c = sequenceCounter m + 1 in (sint c, m\<lparr>sequenceCounter := c\<rparr>))"

text \<open>
  \<open>startRecording(promise)\<close>; \<open>initialized\<close> is whether the new \<open>AudioRecord\<close> reports
  \<open>STATE_INITIALIZED\<close>.
\<close>

definition native_startRecording ::
  "bool \<Rightarrow> recorder_module \<Rightarrow> promise_result \<times> recorder_module" where
  "native_startRecording initialized m =
     (if nativeRecording m
      then (Reject ''ALREADY_RECORDING'' ''Recording is already in progress'', m)
      else if \<not> initialized
      then (Reject ''INIT_FAILED'' ''Failed to initialize AudioRecord'', m\<lparr>audioRecord := True\<rparr>)
      else (Resolve ''Recording started successfully'',
            m\<lparr>audioRecord := True, nativeRecording := True, recordingThread := True,
              nativeEvents := nativeEvents m @ [(''recordingStarted'', None)]\<rparr>))"

text \<open>One round of the loop of \<open>processAudioData\<close>, for the result of \<open>read\<close>.\<close>

definition native_read :: "int \<Rightarrow> recorder_module \<Rightarrow> recorder_module" where
  "native_read readResult m =
     (if readResult > 0
      then (case getNextSequence m of
              (sq, m1) \<Rightarrow> m1\<lparr>nativeEvents := nativeEvents m1 @ [(''audioData'', Some sq)]\<rparr>)
      else m)"

section \<open>Sample values and auxiliary notions\<close>

text \<open>
  Concrete messages and states on which the properties are run, and the
  predicates the statements and their proofs use.
\<close>

text \<open>
  Well-formedness of a state. A response handler is registered under its own response
  type, its promise and timer were allocated, and its timer is either cleared or the
  timeout of the same call.
\<close>

definition handlers_ok :: "service \<Rightarrow> bool" where
  "handlers_ok s \<longleftrightarrow>
     (\<forall>ev ls p rt t. eventListeners s ev = Some ls \<longrightarrow> ResponseHandler p rt t \<in> set ls \<longrightarrow>
        rt = ev \<and> p < nextPromise s \<and> t < nextTimer s \<and>
        (timers s t = None \<or> timers s t = Some (ResponseTimeout 10000 p rt)))"

text \<open>
  Running timers were allocated, a timeout names an allocated promise, and the
  heartbeat interval is a running heartbeat timer.
\<close>

definition timers_ok :: "service \<Rightarrow> bool" where
  "timers_ok s \<longleftrightarrow>
     (\<forall>t x. timers s t = Some x \<longrightarrow> t < nextTimer s) \<and>
     (\<forall>t d p rt. timers s t = Some (ResponseTimeout d p rt) \<longrightarrow> p < nextPromise s) \<and>
     (\<forall>h. heartbeatInterval s = Some h \<longrightarrow> timers s h = Some (HeartbeatTimer 30000))"

text \<open>Settled promises and the promise of \<open>connect\<close> were allocated.\<close>

definition promises_ok :: "service \<Rightarrow> bool" where
  "promises_ok s \<longleftrightarrow>
     (\<forall>p v. settled s p = Some v \<longrightarrow> p < nextPromise s) \<and>
     (\<forall>q. connectPromise s = Some q \<longrightarrow> q < nextPromise s)"

definition wf_service :: "service \<Rightarrow> bool" where
  "wf_service s \<longleftrightarrow> handlers_ok s \<and> timers_ok s \<and> promises_ok s"

definition plain_message :: "string \<Rightarrow> string \<Rightarrow> message" where
  "plain_message ty mid = \<lparr> mtype = ty, timestamp = ''2025-11-24T23:56:11.538Z'', mdata = OtherData [], message_id = mid \<rparr>"

definition connection_response :: "string \<Rightarrow> string \<Rightarrow> message" where
  "connection_response sid mid =
     \<lparr> mtype = ''connection_response'', timestamp = ''2025-11-24T23:56:11.538Z'',
       mdata = ConnectionResponseData ''connected'' sid, message_id = mid \<rparr>"

text \<open>The audio service and the native module after their constructors.\<close>

definition new_audio_service :: audio_service where
  "new_audio_service =
     \<lparr> stream = False, mediaRecorder = None, audioChunks = [], isRecording = False,
       startTime = 0, sequence = 0, recorders = 0, onstop = [], starting = 0,
       processing = [], stopping = [], audioEmitted = [] \<rparr>"

definition new_recorder_module :: recorder_module where
  "new_recorder_module =
     \<lparr> nativeRecording = False, audioRecord = False, recordingThread = False,
       sequenceCounter = 0, nativeEvents = [] \<rparr>"



text \<open>The message \<open>sendHeartbeatResponse\<close> builds.\<close>

definition heartbeat_message :: "string \<Rightarrow> string \<Rightarrow> message" where
  "heartbeat_message now mid =
     \<lparr> mtype = ''heartbeat_response'', timestamp = now,
       mdata = HeartbeatResponseData now, message_id = mid \<rparr>"

text \<open>
  The socket events of a reconnection that fails: an attempt, a connection error, and
  events the service has no handler for, such as \<open>reconnect_failed\<close>.
\<close>

fun failed_attempt_event :: "socket_event \<Rightarrow> bool" where
  "failed_attempt_event (SockReconnectAttempt n) = True"
| "failed_attempt_event (SockConnectError e) = True"
| "failed_attempt_event (SockOther name) = True"
| "failed_attempt_event _ = False"

text \<open>What the service emits for such events: one notice for each attempt.\<close>

fun attempt_notices :: "socket_event list \<Rightarrow> (string \<times> edata) list" where
  "attempt_notices [] = []"
| "attempt_notices (SockReconnectAttempt n # es) =
     (''reconnect_attempt'', ReconnectAttemptEvent n) # attempt_notices es"
| "attempt_notices (e # es) = attempt_notices es"

text \<open>Five reconnection attempts that fail, and the event that reports the end.\<close>

definition five_failed_attempts :: "socket_event list" where
  "five_failed_attempts =
     [SockReconnectAttempt 1, SockConnectError ''timeout'',
      SockReconnectAttempt 2, SockConnectError ''timeout'',
      SockReconnectAttempt 3, SockConnectError ''timeout'',
      SockReconnectAttempt 4, SockConnectError ''timeout'',
      SockReconnectAttempt 5, SockConnectError ''timeout'',
      SockOther ''reconnect_failed'']"




text \<open>Callbacks of the application, as opposed to response handlers.\<close>

fun is_external :: "listener \<Rightarrow> bool" where
  "is_external (External n) = True"
| "is_external _ = False"

text \<open>No response handler is registered for the event: no call awaits it.\<close>

definition no_pending :: "string \<Rightarrow> service \<Rightarrow> bool" where
  "no_pending rt s =
     (case eventListeners s rt of None \<Rightarrow> True | Some ls \<Rightarrow> list_all is_external ls)"

text \<open>
  The call with promise \<open>p\<close> and timer \<open>t\<close> was made, its promise is not the one of
  \<open>connect\<close>, and while it is pending its timeout runs.
\<close>

definition tracked :: "nat \<Rightarrow> string \<Rightarrow> nat \<Rightarrow> service \<Rightarrow> bool" where
  "tracked p rt t s \<longleftrightarrow>
     p < nextPromise s \<and> t < nextTimer s \<and> connectPromise s \<noteq> Some p \<and>
     (settled s p = None \<longrightarrow> timers s t = Some (ResponseTimeout 10000 p rt))"

text \<open>Only the timer \<open>t\<close> and the handler of the call name the promise \<open>p\<close>.\<close>

definition sole :: "nat \<Rightarrow> string \<Rightarrow> nat \<Rightarrow> service \<Rightarrow> bool" where
  "sole p rt t s \<longleftrightarrow>
     (\<forall>t' d rt'. timers s t' = Some (ResponseTimeout d p rt') \<longrightarrow> t' = t) \<and>
     (\<forall>ev ls rt' t'. eventListeners s ev = Some ls \<longrightarrow> ResponseHandler p rt' t' \<in> set ls \<longrightarrow>
        rt' = rt \<and> t' = t)"

text \<open>The handler is registered, and only application callbacks precede it.\<close>

definition heads :: "string \<Rightarrow> listener \<Rightarrow> service \<Rightarrow> bool" where
  "heads rt h s \<longleftrightarrow>
     (\<exists>xs ys. eventListeners s rt = Some (xs @ h # ys) \<and> list_all is_external xs)"

text \<open>The effect of a handler or a timeout that settles its call.\<close>

definition finish :: "nat \<Rightarrow> string \<Rightarrow> nat \<Rightarrow> outcome \<Rightarrow> service \<Rightarrow> service" where
  "finish p' rt' t' v s = settle p' v (off rt' (Some (ResponseHandler p' rt' t')) (clearTimer t' s))"

text \<open>
  What holds of a pending call as long as no response of its type arrives and its
  timer does not come due; with \<open>b\<close>, its handler is also the first response handler.
\<close>

definition pending_inv :: "bool \<Rightarrow> nat \<Rightarrow> string \<Rightarrow> nat \<Rightarrow> service \<Rightarrow> bool" where
  "pending_inv b p rt t s \<longleftrightarrow>
     wf_service s \<and> tracked p rt t s \<and> sole p rt t s \<and> settled s p = None \<and>
     (b \<longrightarrow> heads rt (ResponseHandler p rt t) s)"

text \<open>What holds of a call whatever happens.\<close>

definition armed :: "nat \<Rightarrow> string \<Rightarrow> nat \<Rightarrow> service \<Rightarrow> bool" where
  "armed p rt t s \<longleftrightarrow> wf_service s \<and> tracked p rt t s"

text \<open>The promise is settled with \<open>v\<close> and the timeout is cleared.\<close>

definition resolved :: "nat \<Rightarrow> outcome \<Rightarrow> nat \<Rightarrow> service \<Rightarrow> bool" where
  "resolved p v t s \<longleftrightarrow> settled s p = Some v \<and> timers s t = None"




section \<open>Auxiliary lemmas\<close>

lemma isConnected_queue_upd [simp]: "isConnected (s\<lparr>messageQueue := q\<rparr>) = isConnected s"
  by (simp add: isConnected_def)



lemma call_listener_quiet:
  assumes "edata_type d = None" and "\<And>s x. g (s\<lparr>notified := x\<rparr>) = g s"
  shows "g (call_listener l d s) = g s"
  using assms by (cases l; cases d) simp_all

lemma emit_from_quiet:
  assumes q: "edata_type d = None" and g: "\<And>s x. g (s\<lparr>notified := x\<rparr>) = g s"
  shows "g (emit_from k len ev d s) = g s"
  using q
proof (induction k len ev d s rule: emit_from.induct)
  case (1 k len ev d s)
  note quiet = \<open>edata_type d = None\<close>
  show ?case
  proof (cases "k < len")
    case False
    then show ?thesis by (simp add: emit_from.simps)
  next
    case True
    show ?thesis
    proof (cases "eventListeners s ev")
      case None
      with True 1(1)[OF True None quiet] show ?thesis
        by (subst emit_from.simps) simp
    next
      case (Some ls)
      show ?thesis
      proof (cases "k < length ls")
        case False
        with True Some 1(3)[OF True Some False quiet] show ?thesis
          by (subst emit_from.simps) simp
      next
        case inb: True
        have "g (emit_from k len ev d s) = g (emit_from (k + 1) len ev d (call_listener (ls ! k) d s))"
          using True Some inb by (subst emit_from.simps) simp
        also have "\<dots> = g (call_listener (ls ! k) d s)"
          by (rule 1(2)[OF True Some inb quiet])
        also have "\<dots> = g s"
          using call_listener_quiet[of d g "ls ! k" s, OF quiet g] .
        finally show ?thesis .
      qed
    qed
  qed
qed

lemma emit_quiet:
  assumes q: "edata_type d = None"
    and g: "\<And>s x. g (s\<lparr>notified := x\<rparr>) = g s" "\<And>s x. g (s\<lparr>emitted := x\<rparr>) = g s"
  shows "g (emit ev d s) = g s"
  using emit_from_quiet[of d g, OF q g(1)]
  by (simp add: emit_def Let_def g split: option.splits)

lemma call_listener_frame:
  assumes g: "\<And>s x. g (s\<lparr>notified := x\<rparr>) = g s"
    "\<And>s x. g (s\<lparr>eventListeners := x\<rparr>) = g s"
    "\<And>s x. g (s\<lparr>timers := x\<rparr>) = g s"
    "\<And>s x. g (s\<lparr>settled := x\<rparr>) = g s"
  shows "g (call_listener l d s) = g s"
  by (cases l; cases d)
     (simp_all add: g settle_def off_def clearTimer_def split: option.splits)

lemma emit_from_frame:
  assumes g: "\<And>s x. g (s\<lparr>notified := x\<rparr>) = g s"
    "\<And>s x. g (s\<lparr>eventListeners := x\<rparr>) = g s"
    "\<And>s x. g (s\<lparr>timers := x\<rparr>) = g s"
    "\<And>s x. g (s\<lparr>settled := x\<rparr>) = g s"
  shows "g (emit_from k len ev d s) = g s"
proof (induction k len ev d s rule: emit_from.induct)
  case (1 k len ev d s)
  show ?case
  proof (cases "k < len")
    case False
    then show ?thesis by (simp add: emit_from.simps)
  next
    case True
    show ?thesis
    proof (cases "eventListeners s ev")
      case None
      with True 1(1)[OF True None] show ?thesis
        by (subst emit_from.simps) simp
    next
      case (Some ls)
      show ?thesis
      proof (cases "k < length ls")
        case False
        with True Some 1(3)[OF True Some False] show ?thesis
          by (subst emit_from.simps) simp
      next
        case inb: True
        have "g (emit_from k len ev d s) = g (emit_from (k + 1) len ev d (call_listener (ls ! k) d s))"
          using True Some inb by (subst emit_from.simps) simp
        also have "\<dots> = g (call_listener (ls ! k) d s)"
          by (rule 1(2)[OF True Some inb])
        also have "\<dots> = g s"
          using call_listener_frame[of g "ls ! k" d s, OF g] .
        finally show ?thesis .
      qed
    qed
  qed
qed

lemma emit_frame:
  assumes g: "\<And>s x. g (s\<lparr>notified := x\<rparr>) = g s"
    "\<And>s x. g (s\<lparr>eventListeners := x\<rparr>) = g s"
    "\<And>s x. g (s\<lparr>timers := x\<rparr>) = g s"
    "\<And>s x. g (s\<lparr>settled := x\<rparr>) = g s"
    "\<And>s x. g (s\<lparr>emitted := x\<rparr>) = g s"
  shows "g (emit ev d s) = g s"
  using emit_from_frame[of g, OF g(1-4)]
  by (simp add: emit_def Let_def g split: option.splits)

lemma setSessionId_frame:
  assumes g: "\<And>s x. g (s\<lparr>notified := x\<rparr>) = g s"
    "\<And>s x. g (s\<lparr>emitted := x\<rparr>) = g s"
    "\<And>s x. g (s\<lparr>sessionId := x\<rparr>) = g s"
  shows "g (setSessionId sid s) = g s"
  unfolding setSessionId_def
  using emit_quiet[of "SessionIdEvent sid" g, OF _ g(1,2)] by (simp add: g)

lemma handleMessage_frame:
  assumes g: "\<And>s x. g (s\<lparr>notified := x\<rparr>) = g s"
    "\<And>s x. g (s\<lparr>eventListeners := x\<rparr>) = g s"
    "\<And>s x. g (s\<lparr>timers := x\<rparr>) = g s"
    "\<And>s x. g (s\<lparr>settled := x\<rparr>) = g s"
    "\<And>s x. g (s\<lparr>emitted := x\<rparr>) = g s"
    "\<And>s x. g (s\<lparr>sessionId := x\<rparr>) = g s"
  shows "g (handleMessage m s) = g s"
  unfolding handleMessage_def Let_def
  using emit_frame[of g, OF g(1-5)] setSessionId_frame[of g, OF g(1,5,6)]
  by (simp split: option.splits)

lemma wf_new: "wf_service (new_service f)"
  by (simp add: wf_service_def handlers_ok_def timers_ok_def promises_ok_def new_service_def)

lemma in_remove1D: "x \<in> set (remove1 y xs) \<Longrightarrow> x \<in> set xs"
  using set_remove1_subset by fastforce

lemma handlers_ok_mono:
  assumes ok: "handlers_ok s"
    and sub: "\<And>ev ls' h. eventListeners s' ev = Some ls' \<Longrightarrow> h \<in> set ls' \<Longrightarrow>
                \<exists>ls. eventListeners s ev = Some ls \<and> h \<in> set ls"
    and np: "nextPromise s \<le> nextPromise s'"
    and nt: "nextTimer s \<le> nextTimer s'"
    and tm: "\<And>t. timers s' t = timers s t \<or> timers s' t = None"
  shows "handlers_ok s'"
  unfolding handlers_ok_def
proof (intro allI impI)
  fix ev ls' p rt t
  assume "eventListeners s' ev = Some ls'" and "ResponseHandler p rt t \<in> set ls'"
  from sub[OF this] obtain ls where
    ls: "eventListeners s ev = Some ls" "ResponseHandler p rt t \<in> set ls" by blast
  with ok have old: "rt = ev" "p < nextPromise s" "t < nextTimer s"
      "timers s t = None \<or> timers s t = Some (ResponseTimeout 10000 p rt)"
    unfolding handlers_ok_def by blast+
  from old(4) tm[of t]
  have "timers s' t = None \<or> timers s' t = Some (ResponseTimeout 10000 p rt)" by auto
  with old np nt
  show "rt = ev \<and> p < nextPromise s' \<and> t < nextTimer s' \<and>
        (timers s' t = None \<or> timers s' t = Some (ResponseTimeout 10000 p rt))"
    by simp
qed

lemma settle_fields [simp]:
  "socket (settle p v s) = socket s"
  "reconnectAttempts (settle p v s) = reconnectAttempts s"
  "maxReconnectAttempts (settle p v s) = maxReconnectAttempts s"
  "reconnectInterval (settle p v s) = reconnectInterval s"
  "heartbeatInterval (settle p v s) = heartbeatInterval s"
  "isConnecting (settle p v s) = isConnecting s"
  "messageQueue (settle p v s) = messageQueue s"
  "eventListeners (settle p v s) = eventListeners s"
  "sessionId (settle p v s) = sessionId s"
  "connectPromise (settle p v s) = connectPromise s"
  "timers (settle p v s) = timers s"
  "nextTimer (settle p v s) = nextTimer s"
  "nextPromise (settle p v s) = nextPromise s"
  "transmitted (settle p v s) = transmitted s"
  "emitAttempts (settle p v s) = emitAttempts s"
  "emitThrows (settle p v s) = emitThrows s"
  "emitted (settle p v s) = emitted s"
  "notified (settle p v s) = notified s"
  by (simp_all add: settle_def)

lemma clearTimer_fields [simp]:
  "socket (clearTimer t s) = socket s"
  "reconnectAttempts (clearTimer t s) = reconnectAttempts s"
  "maxReconnectAttempts (clearTimer t s) = maxReconnectAttempts s"
  "reconnectInterval (clearTimer t s) = reconnectInterval s"
  "heartbeatInterval (clearTimer t s) = heartbeatInterval s"
  "isConnecting (clearTimer t s) = isConnecting s"
  "messageQueue (clearTimer t s) = messageQueue s"
  "eventListeners (clearTimer t s) = eventListeners s"
  "sessionId (clearTimer t s) = sessionId s"
  "connectPromise (clearTimer t s) = connectPromise s"
  "nextTimer (clearTimer t s) = nextTimer s"
  "settled (clearTimer t s) = settled s"
  "nextPromise (clearTimer t s) = nextPromise s"
  "transmitted (clearTimer t s) = transmitted s"
  "emitAttempts (clearTimer t s) = emitAttempts s"
  "emitThrows (clearTimer t s) = emitThrows s"
  "emitted (clearTimer t s) = emitted s"
  "notified (clearTimer t s) = notified s"
  by (simp_all add: clearTimer_def)

lemma off_fields [simp]:
  "socket (off ev cbo s) = socket s"
  "reconnectAttempts (off ev cbo s) = reconnectAttempts s"
  "maxReconnectAttempts (off ev cbo s) = maxReconnectAttempts s"
  "reconnectInterval (off ev cbo s) = reconnectInterval s"
  "heartbeatInterval (off ev cbo s) = heartbeatInterval s"
  "isConnecting (off ev cbo s) = isConnecting s"
  "messageQueue (off ev cbo s) = messageQueue s"
  "sessionId (off ev cbo s) = sessionId s"
  "connectPromise (off ev cbo s) = connectPromise s"
  "timers (off ev cbo s) = timers s"
  "nextTimer (off ev cbo s) = nextTimer s"
  "settled (off ev cbo s) = settled s"
  "nextPromise (off ev cbo s) = nextPromise s"
  "transmitted (off ev cbo s) = transmitted s"
  "emitAttempts (off ev cbo s) = emitAttempts s"
  "emitThrows (off ev cbo s) = emitThrows s"
  "emitted (off ev cbo s) = emitted s"
  "notified (off ev cbo s) = notified s"
  by (simp_all add: off_def split: option.splits)

lemma on_fields [simp]:
  "socket (on ev cb s) = socket s"
  "reconnectAttempts (on ev cb s) = reconnectAttempts s"
  "maxReconnectAttempts (on ev cb s) = maxReconnectAttempts s"
  "reconnectInterval (on ev cb s) = reconnectInterval s"
  "heartbeatInterval (on ev cb s) = heartbeatInterval s"
  "isConnecting (on ev cb s) = isConnecting s"
  "messageQueue (on ev cb s) = messageQueue s"
  "sessionId (on ev cb s) = sessionId s"
  "connectPromise (on ev cb s) = connectPromise s"
  "timers (on ev cb s) = timers s"
  "nextTimer (on ev cb s) = nextTimer s"
  "settled (on ev cb s) = settled s"
  "nextPromise (on ev cb s) = nextPromise s"
  "transmitted (on ev cb s) = transmitted s"
  "emitAttempts (on ev cb s) = emitAttempts s"
  "emitThrows (on ev cb s) = emitThrows s"
  "emitted (on ev cb s) = emitted s"
  "notified (on ev cb s) = notified s"
  by (simp_all add: on_def split: option.splits)

lemma wf_off: "wf_service s \<Longrightarrow> wf_service (off ev cbo s)"
proof -
  assume w: "wf_service s"
  have "handlers_ok (off ev cbo s)"
  proof (rule handlers_ok_mono)
    show "handlers_ok s" using w by (simp add: wf_service_def)
  next
    fix ev' ls' h
    assume "eventListeners (off ev cbo s) ev' = Some ls'" and "h \<in> set ls'"
    then show "\<exists>ls. eventListeners s ev' = Some ls \<and> h \<in> set ls"
      by (auto simp: off_def split: option.splits if_splits dest: in_remove1D)
  qed (simp_all add: off_def split: option.splits)
  moreover have "timers_ok (off ev cbo s)" "promises_ok (off ev cbo s)"
    using w by (simp_all add: wf_service_def timers_ok_def promises_ok_def off_def split: option.splits)
  ultimately show ?thesis by (simp add: wf_service_def)
qed

lemma wf_settle: "wf_service s \<Longrightarrow> p < nextPromise s \<Longrightarrow> wf_service (settle p v s)"
proof -
  assume w: "wf_service s" and p: "p < nextPromise s"
  have "handlers_ok (settle p v s)"
    by (rule handlers_ok_mono[of s]) (use w in \<open>simp_all add: wf_service_def\<close>)
  moreover have "timers_ok (settle p v s)" "promises_ok (settle p v s)"
    using w p by (simp_all add: wf_service_def timers_ok_def promises_ok_def settle_def)
  ultimately show ?thesis by (simp add: wf_service_def)
qed

lemma wf_clearTimer: "wf_service s \<Longrightarrow> heartbeatInterval s \<noteq> Some t \<Longrightarrow> wf_service (clearTimer t s)"
proof -
  assume w: "wf_service s" and h: "heartbeatInterval s \<noteq> Some t"
  have "handlers_ok (clearTimer t s)"
    by (rule handlers_ok_mono[of s]) (use w in \<open>simp_all add: wf_service_def clearTimer_def\<close>)
  moreover have "timers_ok (clearTimer t s)" "promises_ok (clearTimer t s)"
    using w h by (auto simp: wf_service_def timers_ok_def promises_ok_def clearTimer_def)
  ultimately show ?thesis by (simp add: wf_service_def)
qed

lemma wf_call_listener:
  assumes "wf_service s" and "eventListeners s ev = Some ls" and "l \<in> set ls"
  shows "wf_service (call_listener l d s)"
proof (cases l)
  case (External n)
  with assms(1) show ?thesis
    by (simp add: wf_service_def handlers_ok_def timers_ok_def promises_ok_def)
next
  case (ResponseHandler p rt t)
  show ?thesis
  proof (cases d)
    case (MessageEvent m)
    show ?thesis
    proof (cases "mtype m = rt")
      case False
      with ResponseHandler MessageEvent assms(1) show ?thesis by simp
    next
      case True
      have h: "p < nextPromise s"
          "timers s t = None \<or> timers s t = Some (ResponseTimeout 10000 p rt)"
        using assms ResponseHandler unfolding wf_service_def handlers_ok_def by blast+
      have nhb: "heartbeatInterval s \<noteq> Some t"
        using h(2) assms(1) unfolding wf_service_def timers_ok_def by auto
      have "call_listener l d s =
          settle p (ResolvedWith m) (off rt (Some (ResponseHandler p rt t)) (clearTimer t s))"
        using ResponseHandler MessageEvent True by simp
      moreover have "wf_service (settle p (ResolvedWith m) (off rt (Some (ResponseHandler p rt t)) (clearTimer t s)))"
        by (intro wf_settle wf_off wf_clearTimer assms(1) nhb) (simp add: h(1))
      ultimately show ?thesis by simp
    qed
  qed (use ResponseHandler assms(1) in simp_all)
qed

lemma wf_emit_from: "wf_service s \<Longrightarrow> wf_service (emit_from k len ev d s)"
proof (induction k len ev d s rule: emit_from.induct)
  case (1 k len ev d s)
  show ?case
  proof (cases "k < len")
    case False
    with 1(4) show ?thesis by (simp add: emit_from.simps)
  next
    case True
    show ?thesis
    proof (cases "eventListeners s ev")
      case None
      with True 1(1)[OF True None 1(4)] show ?thesis
        by (subst emit_from.simps) simp
    next
      case (Some ls)
      show ?thesis
      proof (cases "k < length ls")
        case False
        with True Some 1(3)[OF True Some False 1(4)] show ?thesis
          by (subst emit_from.simps) simp
      next
        case inb: True
        have "wf_service (call_listener (ls ! k) d s)"
          using wf_call_listener[OF 1(4) Some] inb by simp
        from 1(2)[OF True Some inb this] True Some inb show ?thesis
          by (subst emit_from.simps) simp
      qed
    qed
  qed
qed

lemma wf_emit: "wf_service s \<Longrightarrow> wf_service (emit ev d s)"
proof -
  assume w: "wf_service s"
  have "wf_service (s\<lparr>emitted := emitted s @ [(ev, d)]\<rparr>)"
    using w by (simp add: wf_service_def handlers_ok_def timers_ok_def promises_ok_def)
  then show ?thesis
    by (simp add: emit_def Let_def wf_emit_from split: option.splits)
qed

lemma wf_service_cong:
  assumes "eventListeners s' = eventListeners s" "timers s' = timers s"
    "nextTimer s' = nextTimer s" "nextPromise s' = nextPromise s"
    "heartbeatInterval s' = heartbeatInterval s" "settled s' = settled s"
    "connectPromise s' = connectPromise s"
  shows "wf_service s' = wf_service s"
  by (simp add: wf_service_def handlers_ok_def timers_ok_def promises_ok_def assms)

lemma sendMessage_fields [simp]:
  "socket (sendMessage m s) = socket s"
  "reconnectAttempts (sendMessage m s) = reconnectAttempts s"
  "maxReconnectAttempts (sendMessage m s) = maxReconnectAttempts s"
  "reconnectInterval (sendMessage m s) = reconnectInterval s"
  "heartbeatInterval (sendMessage m s) = heartbeatInterval s"
  "isConnecting (sendMessage m s) = isConnecting s"
  "eventListeners (sendMessage m s) = eventListeners s"
  "sessionId (sendMessage m s) = sessionId s"
  "connectPromise (sendMessage m s) = connectPromise s"
  "timers (sendMessage m s) = timers s"
  "nextTimer (sendMessage m s) = nextTimer s"
  "settled (sendMessage m s) = settled s"
  "nextPromise (sendMessage m s) = nextPromise s"
  "emitThrows (sendMessage m s) = emitThrows s"
  "emitted (sendMessage m s) = emitted s"
  "notified (sendMessage m s) = notified s"
  by (simp_all add: sendMessage_def socket_emit_def Let_def)

lemma set_connected_fields [simp]:
  "reconnectAttempts (set_connected b s) = reconnectAttempts s"
  "maxReconnectAttempts (set_connected b s) = maxReconnectAttempts s"
  "reconnectInterval (set_connected b s) = reconnectInterval s"
  "heartbeatInterval (set_connected b s) = heartbeatInterval s"
  "isConnecting (set_connected b s) = isConnecting s"
  "messageQueue (set_connected b s) = messageQueue s"
  "eventListeners (set_connected b s) = eventListeners s"
  "sessionId (set_connected b s) = sessionId s"
  "connectPromise (set_connected b s) = connectPromise s"
  "timers (set_connected b s) = timers s"
  "nextTimer (set_connected b s) = nextTimer s"
  "settled (set_connected b s) = settled s"
  "nextPromise (set_connected b s) = nextPromise s"
  "transmitted (set_connected b s) = transmitted s"
  "emitAttempts (set_connected b s) = emitAttempts s"
  "emitThrows (set_connected b s) = emitThrows s"
  "emitted (set_connected b s) = emitted s"
  "notified (set_connected b s) = notified s"
  by (simp_all add: set_connected_def split: option.splits)

lemma flush_frame:
  assumes run: "flushMessageQueue s = Some s'"
    and g: "\<And>s x. g (s\<lparr>messageQueue := x\<rparr>) = g s"
       "\<And>s x. g (s\<lparr>transmitted := x\<rparr>) = g s"
       "\<And>s x. g (s\<lparr>emitAttempts := x\<rparr>) = g s"
  shows "g s' = g s"
proof (rule flushMessageQueue.raw_induct [where P = "\<lambda>s s'. g s' = g s", OF _ run])
  fix flush :: "service \<Rightarrow> service option" and x y
  assume IH: "\<And>x y. flush x = Some y \<Longrightarrow> g y = g x"
  assume step: "(if messageQueue x \<noteq> [] \<and> isConnected x
      then (case messageQueue x of [] \<Rightarrow> Some x
            | m # rest \<Rightarrow> flush (sendMessage m (x\<lparr>messageQueue := rest\<rparr>)))
      else Some x) = Some y"
  have sm: "g (sendMessage m z) = g z" for m z
    by (simp add: sendMessage_def socket_emit_def Let_def g)
  show "g y = g x"
  proof (cases "messageQueue x \<noteq> [] \<and> isConnected x")
    case False
    with step show ?thesis by auto
  next
    case True
    then obtain m rest where q: "messageQueue x = m # rest" by (cases "messageQueue x") auto
    with True step have "flush (sendMessage m (x\<lparr>messageQueue := rest\<rparr>)) = Some y" by simp
    from IH[OF this] show ?thesis by (simp add: sm g)
  qed
qed

lemma wf_service_sendMessage: "wf_service (sendMessage m s) = wf_service s"
  by (rule wf_service_cong) simp_all

lemma wf_service_flush:
  assumes "flushMessageQueue s = Some s'"
  shows "wf_service s' = wf_service s"
proof (rule wf_service_cong)
  show "eventListeners s' = eventListeners s" by (rule flush_frame[OF assms]) simp_all
  show "timers s' = timers s" by (rule flush_frame[OF assms]) simp_all
  show "nextTimer s' = nextTimer s" by (rule flush_frame[OF assms]) simp_all
  show "nextPromise s' = nextPromise s" by (rule flush_frame[OF assms]) simp_all
  show "heartbeatInterval s' = heartbeatInterval s" by (rule flush_frame[OF assms]) simp_all
  show "settled s' = settled s" by (rule flush_frame[OF assms]) simp_all
  show "connectPromise s' = connectPromise s" by (rule flush_frame[OF assms]) simp_all
qed

lemma wf_service_on_external: "wf_service s \<Longrightarrow> wf_service (on ev (External n) s)"
proof -
  assume w: "wf_service s"
  have "handlers_ok (on ev (External n) s)"
    unfolding handlers_ok_def
  proof (intro allI impI)
    fix ev' ls' p rt t
    assume a: "eventListeners (on ev (External n) s) ev' = Some ls'" "ResponseHandler p rt t \<in> set ls'"
    then have "\<exists>ls. eventListeners s ev' = Some ls \<and> ResponseHandler p rt t \<in> set ls"
      by (auto simp: on_def split: option.splits if_splits)
    with w show "rt = ev' \<and> p < nextPromise (on ev (External n) s) \<and> t < nextTimer (on ev (External n) s) \<and>
        (timers (on ev (External n) s) t = None \<or>
         timers (on ev (External n) s) t = Some (ResponseTimeout 10000 p rt))"
      unfolding wf_service_def handlers_ok_def by simp blast
  qed
  moreover have "timers_ok (on ev (External n) s)" "promises_ok (on ev (External n) s)"
    using w by (simp_all add: wf_service_def timers_ok_def promises_ok_def)
  ultimately show ?thesis by (simp add: wf_service_def)
qed

lemma wf_service_set_connected: "wf_service (set_connected b s) = wf_service s"
  by (rule wf_service_cong) simp_all

lemma wf_service_setSessionId: "wf_service s \<Longrightarrow> wf_service (setSessionId sid s)"
proof -
  assume w: "wf_service s"
  have "wf_service (s\<lparr>sessionId := Some sid\<rparr>) = wf_service s"
    by (rule wf_service_cong) simp_all
  with w show ?thesis by (simp add: setSessionId_def wf_emit)
qed

lemma wf_service_handleMessage: "wf_service s \<Longrightarrow> wf_service (handleMessage m s)"
  by (simp add: handleMessage_def Let_def wf_emit wf_service_setSessionId split: option.splits)

lemma wf_service_stopHeartbeat: "wf_service s \<Longrightarrow> wf_service (stopHeartbeat s)"
proof (cases "heartbeatInterval s")
  case None
  assume "wf_service s"
  with None show ?thesis by (simp add: stopHeartbeat_def)
next
  case (Some h)
  assume w: "wf_service s"
  have "handlers_ok (stopHeartbeat s)"
    by (rule handlers_ok_mono[of s])
       (use w Some in \<open>simp_all add: wf_service_def stopHeartbeat_def clearTimer_def\<close>)
  moreover have "timers_ok (stopHeartbeat s)" "promises_ok (stopHeartbeat s)"
    using w Some
    by (auto simp: wf_service_def timers_ok_def promises_ok_def stopHeartbeat_def clearTimer_def)
  ultimately show ?thesis by (simp add: wf_service_def)
qed

lemma stopHeartbeat_fields [simp]:
  "socket (stopHeartbeat s) = socket s"
  "messageQueue (stopHeartbeat s) = messageQueue s"
  "eventListeners (stopHeartbeat s) = eventListeners s"
  "sessionId (stopHeartbeat s) = sessionId s"
  "connectPromise (stopHeartbeat s) = connectPromise s"
  "nextTimer (stopHeartbeat s) = nextTimer s"
  "settled (stopHeartbeat s) = settled s"
  "nextPromise (stopHeartbeat s) = nextPromise s"
  "transmitted (stopHeartbeat s) = transmitted s"
  "emitAttempts (stopHeartbeat s) = emitAttempts s"
  "emitThrows (stopHeartbeat s) = emitThrows s"
  "emitted (stopHeartbeat s) = emitted s"
  "notified (stopHeartbeat s) = notified s"
  "isConnecting (stopHeartbeat s) = isConnecting s"
  "reconnectAttempts (stopHeartbeat s) = reconnectAttempts s"
  "maxReconnectAttempts (stopHeartbeat s) = maxReconnectAttempts s"
  "reconnectInterval (stopHeartbeat s) = reconnectInterval s"
  "heartbeatInterval (stopHeartbeat s) = None"
  by (simp_all add: stopHeartbeat_def clearTimer_def split: option.splits)

lemma timers_stopHeartbeat:
  "timers (stopHeartbeat s) t = (if heartbeatInterval s = Some t then None else timers s t)"
  by (simp add: stopHeartbeat_def clearTimer_def split: option.splits)

lemma timers_fresh: "wf_service s \<Longrightarrow> timers s (nextTimer s) = None"
proof (rule ccontr)
  assume w: "wf_service s" and "timers s (nextTimer s) \<noteq> None"
  then obtain x where "timers s (nextTimer s) = Some x" by auto
  with w have "nextTimer s < nextTimer s" unfolding wf_service_def timers_ok_def by blast
  then show False by simp
qed

lemma heartbeat_not_fresh: "wf_service s \<Longrightarrow> heartbeatInterval s \<noteq> Some (nextTimer s)"
proof
  assume w: "wf_service s" and "heartbeatInterval s = Some (nextTimer s)"
  then have "timers s (nextTimer s) = Some (HeartbeatTimer 30000)"
    unfolding wf_service_def timers_ok_def by blast
  with timers_fresh[OF w] show False by simp
qed

lemma wf_service_startHeartbeat: "wf_service s \<Longrightarrow> wf_service (startHeartbeat s)"
proof -
  assume "wf_service s"
  then have w: "wf_service (stopHeartbeat s)" by (rule wf_service_stopHeartbeat)
  let ?s1 = "stopHeartbeat s"
  let ?s2 = "?s1\<lparr>nextTimer := nextTimer ?s1 + 1,
      timers := (timers ?s1)(nextTimer ?s1 \<mapsto> HeartbeatTimer 30000),
      heartbeatInterval := Some (nextTimer ?s1)\<rparr>"
  have fresh: "timers ?s1 (nextTimer ?s1) = None"
    by (rule timers_fresh[OF w])
  have "handlers_ok ?s2"
    unfolding handlers_ok_def
  proof (intro allI impI)
    fix ev ls p rt t
    assume "eventListeners ?s2 ev = Some ls" "ResponseHandler p rt t \<in> set ls"
    then have "rt = ev \<and> p < nextPromise ?s1 \<and> t < nextTimer ?s1 \<and>
        (timers ?s1 t = None \<or> timers ?s1 t = Some (ResponseTimeout 10000 p rt))"
      using w unfolding wf_service_def handlers_ok_def by simp
    then show "rt = ev \<and> p < nextPromise ?s2 \<and> t < nextTimer ?s2 \<and>
        (timers ?s2 t = None \<or> timers ?s2 t = Some (ResponseTimeout 10000 p rt))"
      by auto
  qed
  moreover have "timers_ok ?s2"
    using w unfolding wf_service_def timers_ok_def by (auto simp: less_Suc_eq)
  moreover have "promises_ok ?s2"
    using w unfolding wf_service_def promises_ok_def by simp
  ultimately show ?thesis by (simp add: wf_service_def startHeartbeat_def Let_def)
qed

lemma wf_service_sendWithResponse: "wf_service s \<Longrightarrow> wf_service (snd (sendWithResponse m rt s))"
proof -
  assume w: "wf_service s"
  let ?p = "nextPromise s" and ?t = "nextTimer s"
  let ?s1 = "s\<lparr>nextPromise := ?p + 1, nextTimer := ?t + 1,
                 timers := (timers s)(?t \<mapsto> ResponseTimeout 10000 ?p rt)\<rparr>"
  let ?s2 = "on rt (ResponseHandler ?p rt ?t) ?s1"
  have "handlers_ok ?s2"
    unfolding handlers_ok_def
  proof (intro allI impI)
    fix ev ls p' rt' t'
    assume a: "eventListeners ?s2 ev = Some ls" "ResponseHandler p' rt' t' \<in> set ls"
    then consider (new) "ev = rt" "p' = ?p" "rt' = rt" "t' = ?t"
      | (old) ls0 where "eventListeners s ev = Some ls0" "ResponseHandler p' rt' t' \<in> set ls0"
      by (auto simp: on_def split: option.splits if_splits)
    then show "rt' = ev \<and> p' < nextPromise ?s2 \<and> t' < nextTimer ?s2 \<and>
        (timers ?s2 t' = None \<or> timers ?s2 t' = Some (ResponseTimeout 10000 p' rt'))"
    proof cases
      case new
      then show ?thesis by simp
    next
      case old
      then have "rt' = ev \<and> p' < nextPromise s \<and> t' < nextTimer s \<and>
        (timers s t' = None \<or> timers s t' = Some (ResponseTimeout 10000 p' rt'))"
        using w unfolding wf_service_def handlers_ok_def by blast
      then show ?thesis by auto
    qed
  qed
  moreover have "timers_ok ?s2"
    using w heartbeat_not_fresh[OF w] unfolding wf_service_def timers_ok_def
    by (auto simp: less_Suc_eq)
  moreover have "promises_ok ?s2"
    using w unfolding wf_service_def promises_ok_def by (auto simp: less_Suc_eq)
  ultimately have "wf_service ?s2" by (simp add: wf_service_def)
  then show ?thesis
    by (simp add: sendWithResponse_def Let_def wf_service_sendMessage)
qed

lemma wf_service_fire_timer: "wf_service s \<Longrightarrow> wf_service (fire_timer t now mid s)"
proof -
  assume w: "wf_service s"
  show ?thesis
  proof (cases "timers s t")
    case None
    with w show ?thesis by (simp add: fire_timer_def)
  next
    case (Some x)
    show ?thesis
    proof (cases x)
      case (ResponseTimeout d p rt)
      have p: "p < nextPromise s"
        using w Some ResponseTimeout unfolding wf_service_def timers_ok_def by blast
      have nhb: "heartbeatInterval s \<noteq> Some t"
        using w Some ResponseTimeout unfolding wf_service_def timers_ok_def by auto
      have "wf_service (settle p (Rejected (''Timeout waiting for '' @ rt))
            (off rt (Some (ResponseHandler p rt t)) (clearTimer t s)))"
        by (intro wf_settle wf_off wf_clearTimer w nhb) (simp add: p)
      with Some ResponseTimeout show ?thesis by (simp add: fire_timer_def)
    next
      case (HeartbeatTimer d)
      with Some w show ?thesis
        by (simp add: fire_timer_def sendHeartbeatResponse_def wf_service_sendMessage)
    qed
  qed
qed

lemma wf_service_settle_connect: "wf_service s \<Longrightarrow> wf_service (settle_connect v s)"
proof (cases "connectPromise s")
  case None
  assume "wf_service s"
  with None show ?thesis by (simp add: settle_connect_def)
next
  case (Some q)
  assume w: "wf_service s"
  then have "q < nextPromise s" using Some unfolding wf_service_def promises_ok_def by blast
  with w Some show ?thesis by (simp add: settle_connect_def wf_settle)
qed

lemma wf_service_connect: "wf_service s \<Longrightarrow> wf_service (snd (connect io_error s))"
proof -
  assume w: "wf_service s"
  let ?s0 = "s\<lparr>nextPromise := nextPromise s + 1\<rparr>"
  have h0: "handlers_ok ?s0"
    by (rule handlers_ok_mono[of s]) (use w in \<open>simp_all add: wf_service_def\<close>)
  have t0: "timers_ok ?s0"
    using w unfolding wf_service_def timers_ok_def by (auto simp: less_Suc_eq)
  have p0: "promises_ok ?s0"
    using w unfolding wf_service_def promises_ok_def by (auto simp: less_Suc_eq)
  have w0: "wf_service ?s0" using h0 t0 p0 by (simp add: wf_service_def)
  have w1: "wf_service (?s0\<lparr>isConnecting := b\<rparr>)" for b
    using w0 wf_service_cong[of "?s0\<lparr>isConnecting := b\<rparr>" ?s0] by simp
  have w2: "wf_service (?s0\<lparr>isConnecting := True, socket := k, connectPromise := Some (nextPromise s)\<rparr>)" for k
    using w0 unfolding wf_service_def handlers_ok_def timers_ok_def promises_ok_def by simp
  show ?thesis
    using w0 w1 w2
    by (simp add: connect_def Let_def wf_settle split: option.splits)
qed

lemma wf_service_disconnect_handler:
  "wf_service s \<Longrightarrow> wf_service (disconnect_handler reason s)"
proof -
  assume "wf_service s"
  then have w: "wf_service (stopHeartbeat s)" by (rule wf_service_stopHeartbeat)
  have "wf_service ((stopHeartbeat s)\<lparr>sessionId := None\<rparr>) = wf_service (stopHeartbeat s)"
    by (rule wf_service_cong) simp_all
  with w show ?thesis by (simp add: disconnect_handler_def wf_emit)
qed

lemma wf_service_connect_handler: "wf_service s \<Longrightarrow> wf_service (connect_handler s)"
proof -
  assume w: "wf_service s"
  have "wf_service (s\<lparr>isConnecting := False, reconnectAttempts := 0\<rparr>) = wf_service s"
    by (rule wf_service_cong) simp_all
  with w show ?thesis
    by (simp add: connect_handler_def wf_service_settle_connect wf_service_startHeartbeat)
qed

lemma wf_service_connect_error_handler:
  "wf_service s \<Longrightarrow> wf_service (connect_error_handler e s)"
proof -
  assume w: "wf_service s"
  have "wf_service (s\<lparr>isConnecting := False\<rparr>) = wf_service s"
    by (rule wf_service_cong) simp_all
  with w show ?thesis by (simp add: connect_error_handler_def wf_service_settle_connect)
qed

lemma wf_service_socket_event:
  assumes "wf_service s" and "handle_socket_event e s = Some s'"
  shows "wf_service s'"
proof (cases e)
  case SockConnect
  with assms show ?thesis
    by (auto simp: wf_service_connect_handler wf_service_set_connected)
next
  case (SockConnectError x)
  with assms show ?thesis by (auto simp: wf_service_connect_error_handler)
next
  case (SockDisconnect r)
  with assms show ?thesis
    by (auto simp: wf_service_disconnect_handler wf_service_set_connected)
next
  case (SockMessage name m)
  with assms show ?thesis by (auto simp: wf_service_handleMessage split: if_splits)
next
  case (SockReconnectAttempt n)
  with assms show ?thesis by (auto simp: reconnect_attempt_handler_def wf_emit)
next
  case (SockReconnect n)
  with assms obtain s1 where s1: "flushMessageQueue s = Some s1"
      "s' = emit ''reconnect'' (ReconnectEvent n) s1"
    by (auto simp: reconnect_handler_def split: option.splits)
  from wf_service_flush[OF s1(1)] assms(1) have "wf_service s1" by simp
  with s1(2) show ?thesis by (simp add: wf_emit)
next
  case (SockOther name)
  with assms show ?thesis by auto
qed

lemma wf_service_disconnect: "wf_service s \<Longrightarrow> wf_service (disconnect s)"
proof (cases "socket s")
  case None
  assume "wf_service s"
  with None show ?thesis by (simp add: disconnect_def)
next
  case (Some k)
  assume w: "wf_service s"
  let ?s1 = "stopHeartbeat s"
  let ?s2 = "if connected k
             then disconnect_handler ''io client disconnect'' (set_connected False ?s1)
             else ?s1"
  have "wf_service ?s2"
    using w by (simp add: wf_service_stopHeartbeat wf_service_disconnect_handler
        wf_service_set_connected)
  moreover have "wf_service (?s2\<lparr>socket := None, sessionId := None\<rparr>) = wf_service ?s2"
    by (rule wf_service_cong) simp_all
  ultimately show ?thesis using Some by (simp add: disconnect_def Let_def)
qed

lemma wf_service_step:
  assumes "wf_service s" and "step a s = Some s'"
  shows "wf_service s'"
proof (cases a)
  case (Connect x)
  with assms show ?thesis by (auto simp: wf_service_connect)
next
  case Disconnect
  with assms show ?thesis by (auto simp: wf_service_disconnect)
next
  case (SendMessage m)
  with assms show ?thesis by (auto simp: wf_service_sendMessage)
next
  case (SendConnectionRequest now mid cid caps)
  with assms show ?thesis
    by (auto simp: sendConnectionRequest_def wf_service_sendWithResponse)
next
  case (On ev n)
  with assms show ?thesis by (auto simp: wf_service_on_external)
next
  case (Off ev cbo)
  with assms show ?thesis by (auto simp: wf_off)
next
  case (SetSessionId sid)
  with assms show ?thesis by (auto simp: wf_service_setSessionId)
next
  case (Socket e)
  with assms show ?thesis by (auto intro: wf_service_socket_event)
next
  case (TimerDue t now mid)
  with assms show ?thesis by (auto simp: wf_service_fire_timer)
qed

lemma wf_service_exec:
  "wf_service s \<Longrightarrow> exec as s = Some s' \<Longrightarrow> wf_service s'"
proof (induction as arbitrary: s)
  case Nil
  then show ?case by simp
next
  case (Cons a as)
  from Cons.prems(2) obtain s1 where s1: "step a s = Some s1" "exec as s1 = Some s'"
    by (auto split: option.splits)
  from wf_service_step[OF Cons.prems(1) s1(1)] Cons.IH s1(2) show ?case by blast
qed

lemma wf_service_reachable: "exec as (new_service f) = Some s \<Longrightarrow> wf_service s"
  using wf_service_exec[OF wf_new] .

lemma exec_append:
  "exec (as @ bs) s = (case exec as s of None \<Rightarrow> None | Some s1 \<Rightarrow> exec bs s1)"
  by (induction as arbitrary: s) (auto split: option.splits)

lemma flush_step:
  "messageQueue s \<noteq> [] \<Longrightarrow> isConnected s \<Longrightarrow>
   flushMessageQueue s =
     flushMessageQueue (sendMessage (hd (messageQueue s)) (s\<lparr>messageQueue := tl (messageQueue s)\<rparr>))"
  by (subst flushMessageQueue.simps) (simp split: list.splits)

lemma flush_stop:
  "messageQueue s = [] \<or> \<not> isConnected s \<Longrightarrow> flushMessageQueue s = Some s"
  by (subst flushMessageQueue.simps) auto

lemmas run_defs =
  connect_def connect_handler_def connect_error_handler_def disconnect_handler_def
  reconnect_attempt_handler_def reconnect_handler_def set_connected_def settle_connect_def
  settle_def clearTimer_def startHeartbeat_def stopHeartbeat_def emit_def emit_from.simps
  sendMessage_def socket_emit_def isConnected_def new_service_def Let_def
  flush_step flush_stop on_def off_def handleMessage_def setSessionId_def
  sendWithResponse_def sendConnectionRequest_def sendHeartbeatResponse_def fire_timer_def
  disconnect_def message_events_def

lemma chunk_sequences_append:
  "chunk_sequences (xs @ ys) = chunk_sequences xs @ chunk_sequences ys"
  by (induction xs rule: chunk_sequences.induct) simp_all

lemma run_audio_Cons: "run_audio (a # as) s = run_audio as (audio_step a s)"
  by (simp add: run_audio_def)

lemma run_audio_Nil: "run_audio [] s = s"
  by (simp add: run_audio_def)

lemma run_audio_append: "run_audio (as @ bs) s = run_audio bs (run_audio as s)"
  by (simp add: run_audio_def)

lemma prompt_schedule_Cons:
  "prompt_schedule r (b # bs) now
     = DataAvailable r b # ChunkProcessed 0 False now # prompt_schedule r bs now"
  by (simp add: prompt_schedule_def)

lemma prompt_step_nonempty:
  assumes "processing s = []" "b \<noteq> []" "sequence s < 2 ^ 53" "r < recorders s"
  shows "audio_step (ChunkProcessed 0 False now) (audio_step (DataAvailable r b) s)
     = s\<lparr>audioChunks := audioChunks s @ [b], sequence := sequence s + 1,
          audioEmitted := audioEmitted s @ [AudioChunk b (sequence s + 1) now]\<rparr>"
  using assms by (simp add: ondataavailable_def processAudioChunk_resume_def js_incr_def)

lemma prompt_step_empty:
  assumes "processing s = []"
  shows "audio_step (ChunkProcessed 0 False now) (audio_step (DataAvailable r []) s) = s"
  using assms by (simp add: ondataavailable_def processAudioChunk_resume_def)

lemma run_prompt:
  assumes "processing s = []" "sequence s + length (filter (\<lambda>b. b \<noteq> []) blobs) \<le> 2 ^ 53"
    and "r < recorders s"
  shows "chunk_sequences (audioEmitted (run_audio (prompt_schedule r blobs now) s))
           = chunk_sequences (audioEmitted s)
             @ [sequence s + 1 ..< sequence s + 1 + length (filter (\<lambda>b. b \<noteq> []) blobs)]
       \<and> sequence (run_audio (prompt_schedule r blobs now) s)
           = sequence s + length (filter (\<lambda>b. b \<noteq> []) blobs)
       \<and> processing (run_audio (prompt_schedule r blobs now) s) = []
       \<and> isRecording (run_audio (prompt_schedule r blobs now) s) = isRecording s"
  using assms
proof (induction blobs arbitrary: s)
  case Nil
  then show ?case by (simp add: prompt_schedule_def run_audio_Nil)
next
  case (Cons b bs)
  show ?case
  proof (cases "b = []")
    case True
    have "run_audio (prompt_schedule r (b # bs) now) s = run_audio (prompt_schedule r bs now) s"
      using True Cons.prems(1)
      by (simp only: prompt_schedule_Cons run_audio_Cons prompt_step_empty)
    with Cons.IH[of s] Cons.prems True show ?thesis by simp
  next
    case False
    let ?s1 = "s\<lparr>audioChunks := audioChunks s @ [b], sequence := sequence s + 1,
          audioEmitted := audioEmitted s @ [AudioChunk b (sequence s + 1) now]\<rparr>"
    have lt: "sequence s < 2 ^ 53" using Cons.prems(2) False by simp
    have run: "run_audio (prompt_schedule r (b # bs) now) s = run_audio (prompt_schedule r bs now) ?s1"
      using prompt_step_nonempty[OF Cons.prems(1) False lt Cons.prems(3), of now]
      by (simp only: prompt_schedule_Cons run_audio_Cons)
    have "processing ?s1 = []" using Cons.prems(1) by simp
    moreover have "sequence ?s1 + length (filter (\<lambda>b. b \<noteq> []) bs) \<le> 2 ^ 53"
      using Cons.prems(2) False by simp
    moreover have "r < recorders ?s1" using Cons.prems(3) by simp
    ultimately have IH: "chunk_sequences (audioEmitted (run_audio (prompt_schedule r bs now) ?s1))
           = chunk_sequences (audioEmitted ?s1)
             @ [sequence ?s1 + 1 ..< sequence ?s1 + 1 + length (filter (\<lambda>b. b \<noteq> []) bs)]
       \<and> sequence (run_audio (prompt_schedule r bs now) ?s1)
           = sequence ?s1 + length (filter (\<lambda>b. b \<noteq> []) bs)
       \<and> processing (run_audio (prompt_schedule r bs now) ?s1) = []
       \<and> isRecording (run_audio (prompt_schedule r bs now) ?s1) = isRecording ?s1"
      by (rule Cons.IH)
    show ?thesis
      using IH False by (simp add: run chunk_sequences_append upt_conv_Cons del: upt_Suc)
  qed
qed



lemmas audio_defs =
  run_audio_def prompt_schedule_def startRecording_def startRecording_resume_def
  stopRecording_def new_audio_service_def ondataavailable_def processAudioChunk_resume_def
  recorder_onerror_def recorder_onstop_def recorder_onstop_resume_def cleanup_def
  js_incr_def Let_def

text \<open>
  The guard of \<open>startRecording\<close> reads \<open>isRecording\<close>, which is written only when the
  call resumes. A second call made before the first has resumed is accepted as well;
  when it resumes, after the first recorder has delivered a chunk, it creates a second
  recorder and sets the counter back to 0.
\<close>

lemma overlapping_starts_accepted:
  "fst (startRecording (snd (startRecording new_audio_service))) = Inr ()
   \<and> (let s = run_audio [StartRecording, StartRecording, MediaSettled None 5,
                         DataAvailable 0 ''abc'', ChunkProcessed 0 False 6] new_audio_service
      in sequence s = 1 \<and> isRecording s \<and> starting s = 1
         \<and> startRecording_resume None 7 s
             = (Some (Inr ()),
                s\<lparr>starting := 0, mediaRecorder := Some 1, recorders := 2, audioChunks := [],
                   startTime := 7, sequence := 0,
                   audioEmitted := audioEmitted s @ [RecordingStarted 7]\<rparr>))"
  by (simp add: audio_defs)

lemma startHeartbeat_fields [simp]:
  "socket (startHeartbeat s) = socket s"
  "messageQueue (startHeartbeat s) = messageQueue s"
  "eventListeners (startHeartbeat s) = eventListeners s"
  "sessionId (startHeartbeat s) = sessionId s"
  "connectPromise (startHeartbeat s) = connectPromise s"
  "settled (startHeartbeat s) = settled s"
  "nextPromise (startHeartbeat s) = nextPromise s"
  "transmitted (startHeartbeat s) = transmitted s"
  "emitAttempts (startHeartbeat s) = emitAttempts s"
  "emitThrows (startHeartbeat s) = emitThrows s"
  "emitted (startHeartbeat s) = emitted s"
  "notified (startHeartbeat s) = notified s"
  "isConnecting (startHeartbeat s) = isConnecting s"
  "reconnectAttempts (startHeartbeat s) = reconnectAttempts s"
  "maxReconnectAttempts (startHeartbeat s) = maxReconnectAttempts s"
  "reconnectInterval (startHeartbeat s) = reconnectInterval s"
  by (simp_all add: startHeartbeat_def Let_def)

lemma settle_connect_fields [simp]:
  "socket (settle_connect v s) = socket s"
  "messageQueue (settle_connect v s) = messageQueue s"
  "eventListeners (settle_connect v s) = eventListeners s"
  "sessionId (settle_connect v s) = sessionId s"
  "connectPromise (settle_connect v s) = connectPromise s"
  "timers (settle_connect v s) = timers s"
  "nextTimer (settle_connect v s) = nextTimer s"
  "heartbeatInterval (settle_connect v s) = heartbeatInterval s"
  "nextPromise (settle_connect v s) = nextPromise s"
  "transmitted (settle_connect v s) = transmitted s"
  "emitAttempts (settle_connect v s) = emitAttempts s"
  "emitThrows (settle_connect v s) = emitThrows s"
  "emitted (settle_connect v s) = emitted s"
  "notified (settle_connect v s) = notified s"
  "isConnecting (settle_connect v s) = isConnecting s"
  "reconnectAttempts (settle_connect v s) = reconnectAttempts s"
  "maxReconnectAttempts (settle_connect v s) = maxReconnectAttempts s"
  "reconnectInterval (settle_connect v s) = reconnectInterval s"
  by (simp_all add: settle_connect_def split: option.splits)

lemma sessionId_fire_timer: "sessionId (fire_timer t now mid s) = sessionId s"
  by (simp add: fire_timer_def sendHeartbeatResponse_def split: option.splits timer.splits)

lemma socket_fire_timer: "socket (fire_timer t now mid s) = socket s"
  by (simp add: fire_timer_def sendHeartbeatResponse_def split: option.splits timer.splits)

lemma heartbeatInterval_fire_timer: "heartbeatInterval (fire_timer t now mid s) = heartbeatInterval s"
  by (simp add: fire_timer_def sendHeartbeatResponse_def split: option.splits timer.splits)

lemma isConnecting_fire_timer: "isConnecting (fire_timer t now mid s) = isConnecting s"
  by (simp add: fire_timer_def sendHeartbeatResponse_def split: option.splits timer.splits)









lemma timers_disconnect_handler:
  "timers (disconnect_handler reason s) t = (if heartbeatInterval s = Some t then None else timers s t)"
  by (simp add: disconnect_handler_def emit_quiet timers_stopHeartbeat)

lemma timers_fire_heartbeat:
  "timers s t = Some (HeartbeatTimer d) \<Longrightarrow> timers (fire_timer t now mid s) = timers s"
  by (simp add: fire_timer_def sendHeartbeatResponse_def)

lemma failed_attempt_step:
  assumes "failed_attempt_event e"
  shows "\<exists>s'. handle_socket_event e s = Some s'
     \<and> emitted s' = emitted s @ attempt_notices [e]
     \<and> socket s' = socket s \<and> reconnectAttempts s' = reconnectAttempts s
     \<and> connectPromise s' = connectPromise s
     \<and> maxReconnectAttempts s' = maxReconnectAttempts s
     \<and> reconnectInterval s' = reconnectInterval s
     \<and> heartbeatInterval s' = heartbeatInterval s \<and> timers s' = timers s
     \<and> (\<forall>p. connectPromise s \<noteq> Some p \<longrightarrow> settled s' p = settled s p)"
proof (cases e)
  case (SockReconnectAttempt n)
  have "emitted (emit ''reconnect_attempt'' (ReconnectAttemptEvent n) s)
      = emitted s @ [(''reconnect_attempt'', ReconnectAttemptEvent n)]"
    using emit_from_quiet[of "ReconnectAttemptEvent n" emitted]
    by (simp add: emit_def Let_def split: option.splits)
  with SockReconnectAttempt show ?thesis
    by (simp add: reconnect_attempt_handler_def emit_quiet)
next
  case (SockConnectError x)
  then show ?thesis
    by (auto simp: connect_error_handler_def settle_connect_def settle_def split: option.splits)
next
  case (SockOther name)
  then show ?thesis by simp
qed (use assms in simp_all)

lemma attempt_notices_append:
  "attempt_notices (xs @ ys) = attempt_notices xs @ attempt_notices ys"
  by (induction xs rule: attempt_notices.induct) simp_all

lemma failed_attempts_run:
  assumes "\<forall>e\<in>set es. failed_attempt_event e"
  shows "\<exists>s'. exec (map Socket es) s = Some s'
     \<and> emitted s' = emitted s @ attempt_notices es
     \<and> socket s' = socket s \<and> reconnectAttempts s' = reconnectAttempts s
     \<and> connectPromise s' = connectPromise s
     \<and> maxReconnectAttempts s' = maxReconnectAttempts s
     \<and> reconnectInterval s' = reconnectInterval s
     \<and> heartbeatInterval s' = heartbeatInterval s \<and> timers s' = timers s
     \<and> (\<forall>p. connectPromise s \<noteq> Some p \<longrightarrow> settled s' p = settled s p)"
  using assms
proof (induction es arbitrary: s)
  case Nil
  then show ?case by simp
next
  case (Cons e es)
  from Cons.prems have fe: "failed_attempt_event e" by simp
  from failed_attempt_step[OF fe, of s] obtain s1 where s1:
    "handle_socket_event e s = Some s1"
    "emitted s1 = emitted s @ attempt_notices [e]"
    "socket s1 = socket s" "reconnectAttempts s1 = reconnectAttempts s"
    "connectPromise s1 = connectPromise s"
    "maxReconnectAttempts s1 = maxReconnectAttempts s"
    "reconnectInterval s1 = reconnectInterval s"
    "heartbeatInterval s1 = heartbeatInterval s" "timers s1 = timers s"
    "\<forall>p. connectPromise s \<noteq> Some p \<longrightarrow> settled s1 p = settled s p"
    by blast
  from Cons.IH[of s1] Cons.prems obtain s2 where s2:
    "exec (map Socket es) s1 = Some s2"
    "emitted s2 = emitted s1 @ attempt_notices es"
    "socket s2 = socket s1" "reconnectAttempts s2 = reconnectAttempts s1"
    "connectPromise s2 = connectPromise s1"
    "maxReconnectAttempts s2 = maxReconnectAttempts s1"
    "reconnectInterval s2 = reconnectInterval s1"
    "heartbeatInterval s2 = heartbeatInterval s1" "timers s2 = timers s1"
    "\<forall>p. connectPromise s1 \<noteq> Some p \<longrightarrow> settled s2 p = settled s1 p"
    by auto
  have app: "attempt_notices (e # es) = attempt_notices [e] @ attempt_notices es"
    using attempt_notices_append[of "[e]" es] by simp
  have "exec (map Socket (e # es)) s = Some s2" using s1(1) s2(1) by simp
  moreover have "emitted s2 = emitted s @ attempt_notices (e # es)"
    using s1(2) s2(2) app by simp
  moreover have "\<forall>p. connectPromise s \<noteq> Some p \<longrightarrow> settled s2 p = settled s p"
    using s1(5,10) s2(10) by simp
  ultimately show ?case
    using s1(3-9) s2(3-9) by simp
qed

lemma config_fire_timer:
  "maxReconnectAttempts (fire_timer t now mid s) = maxReconnectAttempts s"
  "reconnectInterval (fire_timer t now mid s) = reconnectInterval s"
  by (simp_all add: fire_timer_def sendHeartbeatResponse_def split: option.splits timer.splits)

lemma config_step:
  assumes "step a s = Some s'"
  shows "maxReconnectAttempts s' = maxReconnectAttempts s \<and> reconnectInterval s' = reconnectInterval s"
proof (cases a)
  case (Connect x)
  with assms show ?thesis by (auto simp: connect_def Let_def split: option.splits)
next
  case Disconnect
  with assms show ?thesis
    by (auto simp: disconnect_def Let_def disconnect_handler_def emit_quiet split: option.splits)
next
  case (SendMessage m)
  with assms show ?thesis by auto
next
  case (SendConnectionRequest now mid cid caps)
  with assms show ?thesis by (auto simp: sendConnectionRequest_def sendWithResponse_def Let_def)
next
  case (On ev n)
  with assms show ?thesis by auto
next
  case (Off ev cbo)
  with assms show ?thesis by auto
next
  case (SetSessionId sid)
  with assms show ?thesis by (auto simp: setSessionId_frame)
next
  case (TimerDue t now mid)
  with assms show ?thesis by (auto simp: config_fire_timer)
next
  case (Socket e)
  show ?thesis
  proof (cases e)
    case SockConnect
    with Socket assms show ?thesis by (auto simp: connect_handler_def)
  next
    case (SockConnectError x)
    with Socket assms show ?thesis by (auto simp: connect_error_handler_def)
  next
    case (SockDisconnect r)
    with Socket assms show ?thesis by (auto simp: disconnect_handler_def emit_quiet)
  next
    case (SockMessage name m)
    with Socket assms show ?thesis by (auto simp: handleMessage_frame split: if_splits)
  next
    case (SockReconnectAttempt n)
    with Socket assms show ?thesis by (auto simp: reconnect_attempt_handler_def emit_quiet)
  next
    case (SockReconnect n)
    with Socket assms obtain s1 where s1: "flushMessageQueue s = Some s1"
        "s' = emit ''reconnect'' (ReconnectEvent n) s1"
      by (auto simp: reconnect_handler_def split: option.splits)
    have "maxReconnectAttempts s1 = maxReconnectAttempts s"
      by (rule flush_frame[OF s1(1)]) simp_all
    moreover have "reconnectInterval s1 = reconnectInterval s"
      by (rule flush_frame[OF s1(1)]) simp_all
    ultimately show ?thesis using s1(2) by (simp add: emit_quiet)
  next
    case (SockOther name)
    with Socket assms show ?thesis by auto
  qed
qed

lemma config_exec:
  "exec as s = Some s' \<Longrightarrow>
   maxReconnectAttempts s' = maxReconnectAttempts s \<and> reconnectInterval s' = reconnectInterval s"
proof (induction as arbitrary: s)
  case Nil
  then show ?case by simp
next
  case (Cons a as)
  from Cons.prems obtain s1 where s1: "step a s = Some s1" "exec as s1 = Some s'"
    by (auto split: option.splits)
  from config_step[OF s1(1)] Cons.IH[OF s1(2)] show ?case by simp
qed

lemma emit_from_inv:
  assumes I: "I s"
    and step: "\<And>s l ls. I s \<Longrightarrow> eventListeners s ev = Some ls \<Longrightarrow> l \<in> set ls \<Longrightarrow>
                 I (call_listener l d s)"
  shows "I (emit_from k len ev d s)"
  using I step
proof (induction k len ev d s rule: emit_from.induct)
  case (1 k len ev d s)
  note I = \<open>I s\<close>
  note step = 1(5)
  show ?case
  proof (cases "k < len")
    case False
    with I show ?thesis by (simp add: emit_from.simps)
  next
    case True
    show ?thesis
    proof (cases "eventListeners s ev")
      case None
      with True 1(1)[OF True None I step] show ?thesis
        by (subst emit_from.simps) simp
    next
      case (Some ls)
      show ?thesis
      proof (cases "k < length ls")
        case False
        with True Some 1(3)[OF True Some False I step] show ?thesis
          by (subst emit_from.simps) simp
      next
        case inb: True
        have "I (call_listener (ls ! k) d s)"
          using step[OF I Some] inb by simp
        from 1(2)[OF True Some inb this step] True Some inb show ?thesis
          by (subst emit_from.simps) simp
      qed
    qed
  qed
qed

lemma tracked_cong:
  assumes "nextPromise s' = nextPromise s" "nextTimer s' = nextTimer s"
    "connectPromise s' = connectPromise s" "settled s' = settled s" "timers s' = timers s"
  shows "tracked p rt t s' = tracked p rt t s"
  by (simp add: tracked_def assms)

lemma sole_cong:
  assumes "eventListeners s' = eventListeners s" "timers s' = timers s"
  shows "sole p rt t s' = sole p rt t s"
  by (simp add: sole_def assms)

lemma heads_cong:
  assumes "eventListeners s' = eventListeners s"
  shows "heads rt h s' = heads rt h s"
  by (simp add: heads_def assms)

lemma sole_mono:
  assumes ok: "sole p rt t s"
    and sub: "\<And>ev ls' h. eventListeners s' ev = Some ls' \<Longrightarrow> h \<in> set ls' \<Longrightarrow>
                \<exists>ls. eventListeners s ev = Some ls \<and> h \<in> set ls"
    and tm: "\<And>t'. timers s' t' = timers s t' \<or> timers s' t' = None"
  shows "sole p rt t s'"
  unfolding sole_def
proof (intro conjI allI impI)
  fix t' d rt'
  assume "timers s' t' = Some (ResponseTimeout d p rt')"
  with tm[of t'] have "timers s t' = Some (ResponseTimeout d p rt')" by auto
  with ok show "t' = t" unfolding sole_def by blast
next
  fix ev ls' rt' t'
  assume "eventListeners s' ev = Some ls'" "ResponseHandler p rt' t' \<in> set ls'"
  from sub[OF this] obtain ls where "eventListeners s ev = Some ls"
      "ResponseHandler p rt' t' \<in> set ls" by blast
  with ok show "rt' = rt" "t' = t" unfolding sole_def by blast+
qed

lemma finish_fields [simp]:
  "nextPromise (finish p' rt' t' v s) = nextPromise s"
  "nextTimer (finish p' rt' t' v s) = nextTimer s"
  "connectPromise (finish p' rt' t' v s) = connectPromise s"
  "heartbeatInterval (finish p' rt' t' v s) = heartbeatInterval s"
  by (simp_all add: finish_def)

lemma finish_timers [simp]: "timers (finish p' rt' t' v s) = (timers s)(t' := None)"
  by (simp add: finish_def clearTimer_def)

lemma finish_settled [simp]:
  "settled (finish p' rt' t' v s) = (if settled s p' = None then (settled s)(p' \<mapsto> v) else settled s)"
  by (simp add: finish_def settle_def)

lemma listeners_finish:
  "eventListeners (finish p' rt' t' v s) ev =
     (if ev = rt' then map_option (remove1 (ResponseHandler p' rt' t')) (eventListeners s rt')
      else eventListeners s ev)"
  by (simp add: finish_def off_def split: option.splits)

lemma sole_finish: "sole p rt t s \<Longrightarrow> sole p rt t (finish p' rt' t' v s)"
proof (rule sole_mono[of p rt t s])
  fix ev ls' h
  assume "eventListeners (finish p' rt' t' v s) ev = Some ls'" "h \<in> set ls'"
  then show "\<exists>ls. eventListeners s ev = Some ls \<and> h \<in> set ls"
    by (auto simp: listeners_finish split: if_splits dest: in_remove1D)
qed simp_all

lemma call_listener_cases:
  "(\<exists>n. l = External n \<and> call_listener l d s = s\<lparr>notified := notified s @ [(n, d)]\<rparr>)
   \<or> (\<exists>p' rt' t' m. l = ResponseHandler p' rt' t' \<and> d = MessageEvent m \<and> mtype m = rt'
        \<and> call_listener l d s = finish p' rt' t' (ResolvedWith m) s)
   \<or> (\<not> is_external l \<and> call_listener l d s = s)"
proof (cases l)
  case (External n)
  then show ?thesis by simp
next
  case (ResponseHandler p' rt' t')
  show ?thesis
  proof (cases d)
    case (MessageEvent m)
    with ResponseHandler show ?thesis by (cases "mtype m = rt'") (simp_all add: finish_def)
  qed (use ResponseHandler in simp_all)
qed

lemma tracked_finish:
  assumes tr: "tracked p rt t s"
    and own: "t' = t \<Longrightarrow> settled s p = None \<Longrightarrow> p' = p"
  shows "tracked p rt t (finish p' rt' t' v s)"
proof -
  have "timers (finish p' rt' t' v s) t = Some (ResponseTimeout 10000 p rt)"
    if pend: "settled (finish p' rt' t' v s) p = None"
  proof -
    have old: "settled s p = None"
      using pend by (simp split: if_splits)
    have "p' \<noteq> p"
      using pend old by auto
    with own old have "t' \<noteq> t" by blast
    moreover have "timers s t = Some (ResponseTimeout 10000 p rt)"
      using tr old by (simp add: tracked_def)
    ultimately show ?thesis by simp
  qed
  moreover have "p < nextPromise s" "t < nextTimer s" "connectPromise s \<noteq> Some p"
    using tr by (simp_all add: tracked_def)
  ultimately show ?thesis
    unfolding tracked_def by simp
qed

lemma heads_finish:
  assumes "heads rt h s" "ResponseHandler p' rt' t' \<noteq> h"
  shows "heads rt h (finish p' rt' t' v s)"
proof (cases "rt' = rt")
  case False
  with assms(1) show ?thesis by (simp add: heads_def listeners_finish)
next
  case True
  from assms(1) obtain xs ys where l: "eventListeners s rt = Some (xs @ h # ys)"
      "list_all is_external xs" unfolding heads_def by blast
  have "ResponseHandler p' rt' t' \<notin> set xs"
    using l(2) by (auto simp: list_all_iff)
  then have "remove1 (ResponseHandler p' rt' t') (xs @ h # ys)
      = xs @ h # remove1 (ResponseHandler p' rt' t') ys"
    using assms(2) by (simp add: remove1_append)
  with l(1) True have "eventListeners (finish p' rt' t' v s) rt
      = Some (xs @ h # remove1 (ResponseHandler p' rt' t') ys)"
    by (simp add: listeners_finish)
  with l(2) show ?thesis unfolding heads_def by blast
qed

lemma pending_inv_cong:
  assumes "eventListeners s' = eventListeners s" "timers s' = timers s"
    "nextTimer s' = nextTimer s" "nextPromise s' = nextPromise s"
    "heartbeatInterval s' = heartbeatInterval s" "settled s' = settled s"
    "connectPromise s' = connectPromise s"
  shows "pending_inv b p rt t s' = pending_inv b p rt t s"
  unfolding pending_inv_def
  using wf_service_cong[OF assms] tracked_cong[OF assms(4,3,7,6,2)] sole_cong[OF assms(1,2)]
    heads_cong[OF assms(1)] assms(6)
  by simp

lemma handler_timer:
  assumes "wf_service s" "eventListeners s ev = Some ls" "ResponseHandler p' rt' t' \<in> set ls"
  shows "timers s t' = None \<or> timers s t' = Some (ResponseTimeout 10000 p' rt')"
  using assms unfolding wf_service_def handlers_ok_def by blast

lemma tracked_call_listener:
  assumes w: "wf_service s" and tr: "tracked p rt t s"
    and l: "eventListeners s ev = Some ls" "l \<in> set ls"
  shows "tracked p rt t (call_listener l d s)"
  using call_listener_cases[of l d s]
proof (elim disjE exE conjE)
  fix n
  assume "call_listener l d s = s\<lparr>notified := notified s @ [(n, d)]\<rparr>"
  then show ?thesis using tr tracked_cong[of "s\<lparr>notified := notified s @ [(n, d)]\<rparr>" s] by simp
next
  fix p' rt' t' m
  assume f: "l = ResponseHandler p' rt' t'" "call_listener l d s = finish p' rt' t' (ResolvedWith m) s"
  have "p' = p" if "t' = t" "settled s p = None"
  proof -
    from tr that have "timers s t' = Some (ResponseTimeout 10000 p rt)" by (simp add: tracked_def)
    moreover have "timers s t' = None \<or> timers s t' = Some (ResponseTimeout 10000 p' rt')"
      using handler_timer[OF w l(1), of p' rt' t'] l(2) f(1) by simp
    ultimately show ?thesis by auto
  qed
  then show ?thesis using tracked_finish[OF tr] f(2) by simp
next
  assume "call_listener l d s = s"
  with tr show ?thesis by simp
qed

lemma pending_call_listener:
  assumes inv: "pending_inv b p rt t s"
    and l: "eventListeners s ev = Some ls" "l \<in> set ls"
    and d: "edata_type d \<noteq> Some rt"
  shows "pending_inv b p rt t (call_listener l d s)"
  using call_listener_cases[of l d s]
proof (elim disjE exE conjE)
  fix n
  assume "call_listener l d s = s\<lparr>notified := notified s @ [(n, d)]\<rparr>"
  then show ?thesis
    using inv pending_inv_cong[of "s\<lparr>notified := notified s @ [(n, d)]\<rparr>" s] by simp
next
  assume "call_listener l d s = s"
  with inv show ?thesis by simp
next
  fix p' rt' t' m
  assume f: "l = ResponseHandler p' rt' t'" "d = MessageEvent m" "mtype m = rt'"
    "call_listener l d s = finish p' rt' t' (ResolvedWith m) s"
  from inv have w: "wf_service s" and tr: "tracked p rt t s" and so: "sole p rt t s"
    and pe: "settled s p = None" and hd: "b \<longrightarrow> heads rt (ResponseHandler p rt t) s"
    by (simp_all add: pending_inv_def)
  have ne: "p' \<noteq> p"
  proof
    assume "p' = p"
    with so l f(1) have "rt' = rt" unfolding sole_def by blast
    with f(2,3) d show False by simp
  qed
  have "wf_service (call_listener l d s)" by (rule wf_call_listener[OF w l])
  moreover have "tracked p rt t (call_listener l d s)" by (rule tracked_call_listener[OF w tr l])
  moreover have "sole p rt t (call_listener l d s)" using sole_finish[OF so] f(4) by simp
  moreover have "settled (call_listener l d s) p = None" using pe ne f(4) by simp
  moreover have "b \<longrightarrow> heads rt (ResponseHandler p rt t) (call_listener l d s)"
    using hd heads_finish[of rt "ResponseHandler p rt t" s p' rt' t'] ne f(4) by simp
  ultimately show ?thesis by (simp add: pending_inv_def)
qed

lemma pending_emit:
  assumes inv: "pending_inv b p rt t s" and d: "edata_type d \<noteq> Some rt"
  shows "pending_inv b p rt t (emit ev d s)"
proof -
  let ?s1 = "s\<lparr>emitted := emitted s @ [(ev, d)]\<rparr>"
  have s1: "pending_inv b p rt t ?s1"
    using inv pending_inv_cong[of ?s1 s] by simp
  have "pending_inv b p rt t (emit_from k len ev d ?s1)" for k len
    by (rule emit_from_inv[where I = "pending_inv b p rt t", OF s1])
       (rule pending_call_listener[OF _ _ _ d])
  then show ?thesis
    using s1 by (simp add: emit_def Let_def split: option.splits)
qed

lemma tracked_emit:
  assumes w: "wf_service s" and tr: "tracked p rt t s"
  shows "tracked p rt t (emit ev d s)"
proof -
  let ?s1 = "s\<lparr>emitted := emitted s @ [(ev, d)]\<rparr>"
  have s1: "wf_service ?s1 \<and> tracked p rt t ?s1"
    using w tr wf_service_cong[of ?s1 s] tracked_cong[of ?s1 s] by simp
  have "wf_service (emit_from k len ev d ?s1) \<and> tracked p rt t (emit_from k len ev d ?s1)" for k len
    by (rule emit_from_inv[where I = "\<lambda>s. wf_service s \<and> tracked p rt t s", OF s1])
       (auto intro: wf_call_listener tracked_call_listener)
  then show ?thesis
    using s1 by (simp add: emit_def Let_def split: option.splits)
qed











lemma heads_on:
  assumes "heads rt h s"
  shows "heads rt h (on ev l s)"
proof (cases "ev = rt")
  case False
  with assms show ?thesis by (simp add: heads_def on_def split: option.splits)
next
  case True
  from assms obtain xs ys where l: "eventListeners s rt = Some (xs @ h # ys)"
      "list_all is_external xs" unfolding heads_def by blast
  then have "eventListeners (on ev l s) rt = Some (xs @ h # (ys @ [l]))"
    using True by (simp add: on_def)
  with l(2) show ?thesis unfolding heads_def by blast
qed




lemma tracked_sendWithResponse:
  assumes tr: "tracked p rt t s"
  shows "tracked p rt t (snd (sendWithResponse m rt' s))"
proof -
  let ?s1 = "s\<lparr>nextPromise := nextPromise s + 1, nextTimer := nextTimer s + 1,
                 timers := (timers s)(nextTimer s \<mapsto> ResponseTimeout 10000 (nextPromise s) rt')\<rparr>"
  have "tracked p rt t ?s1" using tr by (auto simp: tracked_def)
  moreover have "tracked p rt t (snd (sendWithResponse m rt' s)) = tracked p rt t ?s1"
    by (rule tracked_cong) (simp_all add: sendWithResponse_def Let_def)
  ultimately show ?thesis by simp
qed

lemma listeners_sendWithResponse:
  "eventListeners (snd (sendWithResponse m rt' s)) =
     eventListeners (on rt' (ResponseHandler (nextPromise s) rt' (nextTimer s)) s)"
  by (simp add: sendWithResponse_def Let_def on_def split: option.splits)

lemma timers_sendWithResponse:
  "timers (snd (sendWithResponse m rt' s)) =
     (timers s)(nextTimer s \<mapsto> ResponseTimeout 10000 (nextPromise s) rt')"
  by (simp add: sendWithResponse_def Let_def)

lemma settled_sendWithResponse: "settled (snd (sendWithResponse m rt' s)) = settled s"
  by (simp add: sendWithResponse_def Let_def)

lemma pending_sendWithResponse:
  assumes inv: "pending_inv b p rt t s"
  shows "pending_inv b p rt t (snd (sendWithResponse m rt' s))"
proof -
  from inv have w: "wf_service s" and tr: "tracked p rt t s" and so: "sole p rt t s"
    and pe: "settled s p = None" and hd: "b \<longrightarrow> heads rt (ResponseHandler p rt t) s"
    by (simp_all add: pending_inv_def)
  let ?s' = "snd (sendWithResponse m rt' s)"
  have pn: "p \<noteq> nextPromise s" using tr by (simp add: tracked_def)
  have "sole p rt t ?s'"
    unfolding sole_def
  proof (intro conjI allI impI)
    fix t' d rt''
    assume "timers ?s' t' = Some (ResponseTimeout d p rt'')"
    then have "timers s t' = Some (ResponseTimeout d p rt'')"
      using pn by (auto simp: timers_sendWithResponse split: if_splits)
    with so show "t' = t" unfolding sole_def by blast
  next
    fix ev ls rt'' t'
    assume "eventListeners ?s' ev = Some ls" "ResponseHandler p rt'' t' \<in> set ls"
    then have "\<exists>ls0. eventListeners s ev = Some ls0 \<and> ResponseHandler p rt'' t' \<in> set ls0"
      using pn by (auto simp: listeners_sendWithResponse on_def split: option.splits if_splits)
    with so show "rt'' = rt" "t' = t" unfolding sole_def by blast+
  qed
  moreover have "b \<longrightarrow> heads rt (ResponseHandler p rt t) ?s'"
  proof
    assume b
    with hd have "heads rt (ResponseHandler p rt t)
        (on rt' (ResponseHandler (nextPromise s) rt' (nextTimer s)) s)"
      by (simp add: heads_on)
    then show "heads rt (ResponseHandler p rt t) ?s'"
      using heads_cong[OF listeners_sendWithResponse] by simp
  qed
  ultimately show ?thesis
    using wf_service_sendWithResponse[OF w] tracked_sendWithResponse[OF tr] pe
    by (simp add: pending_inv_def settled_sendWithResponse)
qed


















lemma pending_setSessionId:
  "pending_inv b p rt t s \<Longrightarrow> pending_inv b p rt t (setSessionId sid s)"
proof -
  assume a: "pending_inv b p rt t s"
  let ?s1 = "s\<lparr>sessionId := Some sid\<rparr>"
  have "pending_inv b p rt t ?s1" using a pending_inv_cong[of ?s1 s] by simp
  then show ?thesis by (simp add: setSessionId_def pending_emit)
qed











lemma fst_sendWithResponse: "fst (sendWithResponse m rt s) = nextPromise s"
  by (simp add: sendWithResponse_def Let_def)

lemma pending_after_call:
  assumes w: "wf_service s"
  shows "pending_inv False (nextPromise s) rt (nextTimer s) (snd (sendWithResponse m rt s))"
proof -
  let ?p = "nextPromise s" and ?t = "nextTimer s"
  let ?s1 = "snd (sendWithResponse m rt s)"
  have unsettled: "settled s ?p = None"
  proof (cases "settled s ?p")
    case (Some v)
    with w have "?p < ?p" unfolding wf_service_def promises_ok_def by blast
    then show ?thesis by simp
  qed simp
  have cp: "connectPromise s \<noteq> Some ?p"
  proof
    assume "connectPromise s = Some ?p"
    with w have "?p < ?p" unfolding wf_service_def promises_ok_def by blast
    then show False by simp
  qed
  have f: "nextPromise ?s1 = ?p + 1" "nextTimer ?s1 = ?t + 1" "connectPromise ?s1 = connectPromise s"
    by (simp_all add: sendWithResponse_def Let_def)
  have tr: "tracked ?p rt ?t ?s1"
    using cp by (simp add: tracked_def f timers_sendWithResponse)
  have so: "sole ?p rt ?t ?s1"
    unfolding sole_def
  proof (intro conjI allI impI)
    fix t' d rt'
    assume a: "timers ?s1 t' = Some (ResponseTimeout d ?p rt')"
    show "t' = ?t"
    proof (rule ccontr)
      assume "t' \<noteq> ?t"
      with a have "timers s t' = Some (ResponseTimeout d ?p rt')"
        by (simp add: timers_sendWithResponse)
      with w have "?p < ?p" unfolding wf_service_def timers_ok_def by blast
      then show False by simp
    qed
  next
    fix ev ls rt' t'
    assume a: "eventListeners ?s1 ev = Some ls" "ResponseHandler ?p rt' t' \<in> set ls"
    then consider (new) "rt' = rt" "t' = ?t"
      | (old) ls0 where "eventListeners s ev = Some ls0" "ResponseHandler ?p rt' t' \<in> set ls0"
      by (auto simp: listeners_sendWithResponse on_def split: option.splits if_splits)
    then have "rt' = rt \<and> t' = ?t"
    proof cases
      case new
      then show ?thesis by simp
    next
      case old
      with w have "?p < ?p" unfolding wf_service_def handlers_ok_def by blast
      then show ?thesis by simp
    qed
    then show "rt' = rt" "t' = ?t" by simp_all
  qed
  show ?thesis
    using wf_service_sendWithResponse[OF w] tr so unsettled
    by (simp add: pending_inv_def settled_sendWithResponse)
qed

lemma heads_after_call:
  assumes "no_pending rt s"
  shows "heads rt (ResponseHandler (nextPromise s) rt (nextTimer s)) (snd (sendWithResponse m rt s))"
proof (cases "eventListeners s rt")
  case None
  then have "eventListeners (snd (sendWithResponse m rt s)) rt
      = Some ([] @ ResponseHandler (nextPromise s) rt (nextTimer s) # [])"
    by (simp add: listeners_sendWithResponse on_def)
  moreover have "list_all is_external ([] :: listener list)" by simp
  ultimately show ?thesis unfolding heads_def by blast
next
  case (Some ls)
  with assms have ext: "list_all is_external ls" by (simp add: no_pending_def)
  from Some have "eventListeners (snd (sendWithResponse m rt s)) rt
      = Some (ls @ ResponseHandler (nextPromise s) rt (nextTimer s) # [])"
    by (simp add: listeners_sendWithResponse on_def)
  with ext show ?thesis unfolding heads_def by blast
qed

lemma resolved_call_listener: "resolved p v t s \<Longrightarrow> resolved p v t (call_listener l d s)"
  using call_listener_cases[of l d s] by (auto simp: resolved_def)

lemma resolved_emit_from: "resolved p v t s \<Longrightarrow> resolved p v t (emit_from k len ev d s)"
  by (rule emit_from_inv[where I = "resolved p v t"]) (simp_all add: resolved_call_listener)

lemma resolved_emit: "resolved p v t s \<Longrightarrow> resolved p v t (emit ev d s)"
proof -
  assume r: "resolved p v t s"
  then have "resolved p v t (s\<lparr>emitted := emitted s @ [(ev, d)]\<rparr>)" by (simp add: resolved_def)
  then show ?thesis by (simp add: emit_def Let_def resolved_emit_from split: option.splits)
qed

lemma emit_from_reaches:
  assumes "eventListeners s rt = Some (xs @ ResponseHandler p rt t # ys)"
    and "list_all is_external xs" and "k \<le> length xs" and "length xs < len"
    and "settled s p = None" and "mtype m = rt"
  shows "resolved p (ResolvedWith m) t (emit_from k len rt (MessageEvent m) s)"
  using assms
proof (induction "length xs - k" arbitrary: k s)
  case 0
  then have k: "k = length xs" by simp
  let ?h = "ResponseHandler p rt t"
  have at: "(xs @ ?h # ys) ! k = ?h" using k by simp
  have kl: "k < len" "k < length (xs @ ?h # ys)" using k "0.prems"(4) by simp_all
  have "emit_from k len rt (MessageEvent m) s
      = emit_from (k + 1) len rt (MessageEvent m) (call_listener ?h (MessageEvent m) s)"
    using "0.prems"(1) kl at by (subst emit_from.simps) simp
  moreover have "call_listener ?h (MessageEvent m) s = finish p rt t (ResolvedWith m) s"
    using "0.prems"(6) by (simp add: finish_def)
  moreover have "resolved p (ResolvedWith m) t (finish p rt t (ResolvedWith m) s)"
    using "0.prems"(5) by (simp add: resolved_def)
  ultimately show ?case by (simp add: resolved_emit_from)
next
  case (Suc n)
  then have k: "k < length xs" by simp
  let ?h = "ResponseHandler p rt t"
  have "is_external (xs ! k)" using Suc.prems(2) k by (simp add: list_all_length)
  then obtain e where e: "xs ! k = External e" by (cases "xs ! k") auto
  have at: "(xs @ ?h # ys) ! k = External e" using k e by (simp add: nth_append)
  have kl: "k < len" "k < length (xs @ ?h # ys)" using k Suc.prems(4) by simp_all
  let ?s1 = "s\<lparr>notified := notified s @ [(e, MessageEvent m)]\<rparr>"
  have step: "emit_from k len rt (MessageEvent m) s = emit_from (k + 1) len rt (MessageEvent m) ?s1"
    using Suc.prems(1) kl at by (subst emit_from.simps) simp
  have "resolved p (ResolvedWith m) t (emit_from (k + 1) len rt (MessageEvent m) ?s1)"
  proof (rule Suc.hyps(1))
    show "n = length xs - (k + 1)" using Suc.hyps(2) by simp
    show "eventListeners ?s1 rt = Some (xs @ ?h # ys)" using Suc.prems(1) by simp
    show "list_all is_external xs" by (rule Suc.prems(2))
    show "k + 1 \<le> length xs" using k by simp
    show "length xs < len" by (rule Suc.prems(4))
    show "settled ?s1 p = None" using Suc.prems(5) by simp
    show "mtype m = rt" by (rule Suc.prems(6))
  qed
  with step show ?case by simp
qed

lemma response_resolves:
  assumes inv: "pending_inv True p rt t s" and ty: "mtype r = rt"
  shows "resolved p (ResolvedWith r) t (handleMessage r s)"
proof -
  let ?s1 = "if mtype r = ''connection_response'' \<and> mdata r \<noteq> NoData
             then (case data_session_id (mdata r) of
                     Some sid \<Rightarrow> if sid \<noteq> [] then setSessionId sid s else s
                   | None \<Rightarrow> s)
             else s"
  have inv1: "pending_inv True p rt t ?s1"
    using inv by (simp add: pending_setSessionId split: option.splits)
  then obtain xs ys where l: "eventListeners ?s1 rt = Some (xs @ ResponseHandler p rt t # ys)"
      "list_all is_external xs" and pe: "settled ?s1 p = None"
    unfolding pending_inv_def heads_def by blast
  let ?s2 = "?s1\<lparr>emitted := emitted ?s1 @ [(rt, MessageEvent r)]\<rparr>"
  have "resolved p (ResolvedWith r) t
          (emit_from 0 (length (xs @ ResponseHandler p rt t # ys)) rt (MessageEvent r) ?s2)"
    by (rule emit_from_reaches[where xs = xs and ys = ys]) (use l pe ty in simp_all)
  then have "resolved p (ResolvedWith r) t (emit rt (MessageEvent r) ?s1)"
    using l(1) by (simp add: emit_def Let_def)
  then have "resolved p (ResolvedWith r) t
      (emit ''message'' (MessageEvent r) (emit (mtype r) (MessageEvent r) ?s1))"
    using ty by (simp add: resolved_emit)
  then show ?thesis by (simp add: handleMessage_def Let_def)
qed

lemma timeout_rejects:
  assumes a: "armed p rt t s" and pe: "settled s p = None"
  shows "timers s t = Some (ResponseTimeout 10000 p rt)
     \<and> settled (fire_timer t now mid s) p = Some (Rejected (''Timeout waiting for '' @ rt))
     \<and> timers (fire_timer t now mid s) t = None"
proof -
  from a pe have tm: "timers s t = Some (ResponseTimeout 10000 p rt)"
    by (simp add: armed_def tracked_def)
  then have "fire_timer t now mid s = finish p rt t (Rejected (''Timeout waiting for '' @ rt)) s"
    by (simp add: fire_timer_def finish_def)
  with tm pe show ?thesis by simp
qed







lemma call_listener_nomatch:
  assumes ty: "edata_type d \<noteq> Some ev"
    and typed: "\<And>p rt t. l = ResponseHandler p rt t \<Longrightarrow> rt = ev"
    and g: "\<And>s x. g (s\<lparr>notified := x\<rparr>) = g s"
  shows "g (call_listener l d s) = g s"
  using call_listener_cases[of l d s]
proof (elim disjE exE conjE)
  fix n
  assume "call_listener l d s = s\<lparr>notified := notified s @ [(n, d)]\<rparr>"
  then show ?thesis by (simp add: g)
next
  fix p' rt' t' m
  assume "l = ResponseHandler p' rt' t'" "d = MessageEvent m" "mtype m = rt'"
  with typed[of p' rt' t'] ty show ?thesis by simp
next
  assume "call_listener l d s = s"
  then show ?thesis by simp
qed

lemma emit_from_nomatch:
  assumes ty: "edata_type d \<noteq> Some ev"
    and typed: "\<And>ls p rt t. eventListeners s ev = Some ls \<Longrightarrow> ResponseHandler p rt t \<in> set ls
                  \<Longrightarrow> rt = ev"
    and g: "\<And>s x. g (s\<lparr>notified := x\<rparr>) = g s"
  shows "g (emit_from k len ev d s) = g s"
proof -
  let ?I = "\<lambda>s'. eventListeners s' = eventListeners s \<and> g s' = g s"
  have "?I (emit_from k len ev d s)"
  proof (rule emit_from_inv[where I = ?I])
    show "?I s" by simp
  next
    fix s' l ls
    assume I: "?I s'" and l: "eventListeners s' ev = Some ls" "l \<in> set ls"
    have t: "\<And>p rt t. l = ResponseHandler p rt t \<Longrightarrow> rt = ev"
      using typed[of ls] l I by auto
    have "eventListeners (call_listener l d s') = eventListeners s'"
      by (rule call_listener_nomatch[OF ty t]) simp_all
    moreover have "g (call_listener l d s') = g s'"
      by (rule call_listener_nomatch[OF ty t g])
    ultimately show "?I (call_listener l d s')" using I by simp
  qed
  then show ?thesis by simp
qed

lemma emit_nomatch:
  assumes w: "wf_service s" and ty: "edata_type d \<noteq> Some ev"
    and g: "\<And>s x. g (s\<lparr>notified := x\<rparr>) = g s" "\<And>s x. g (s\<lparr>emitted := x\<rparr>) = g s"
  shows "g (emit ev d s) = g s"
proof -
  let ?s1 = "s\<lparr>emitted := emitted s @ [(ev, d)]\<rparr>"
  have typed: "rt = ev" if "eventListeners ?s1 ev = Some ls" "ResponseHandler p rt t \<in> set ls"
    for ls p rt t
    using w that unfolding wf_service_def handlers_ok_def by auto
  have "g (emit_from k len ev d ?s1) = g ?s1" for k len
    by (rule emit_from_nomatch[OF ty _ g(1)]) (rule typed)
  then show ?thesis by (simp add: emit_def Let_def g(2) split: option.splits)
qed

lemma sole_call_listener: "sole p rt t s \<Longrightarrow> sole p rt t (call_listener l d s)"
  using call_listener_cases[of l d s] sole_finish[of p rt t s]
    sole_cong[of "s\<lparr>notified := x\<rparr>" s p rt t for x]
  by auto

lemma sole_emit: "sole p rt t s \<Longrightarrow> sole p rt t (emit ev d s)"
proof -
  assume so: "sole p rt t s"
  let ?s1 = "s\<lparr>emitted := emitted s @ [(ev, d)]\<rparr>"
  have s1: "sole p rt t ?s1" using so sole_cong[of ?s1 s] by simp
  have "sole p rt t (emit_from k len ev d ?s1)" for k len
    by (rule emit_from_inv[where I = "sole p rt t", OF s1]) (rule sole_call_listener)
  then show ?thesis using s1 by (simp add: emit_def Let_def split: option.splits)
qed

lemma emit_from_first_of_two:
  assumes "eventListeners s rt = Some (xs @ [ResponseHandler p1 rt t1, ResponseHandler p2 rt t2])"
    and "list_all is_external xs" and "k \<le> length xs" and "len = length xs + 2"
    and "settled s p1 = None" and "p1 \<noteq> p2" and "mtype m = rt"
  shows "eventListeners (emit_from k len rt (MessageEvent m) s) rt
           = Some (xs @ [ResponseHandler p2 rt t2])
       \<and> settled (emit_from k len rt (MessageEvent m) s) p2 = settled s p2"
  using assms
proof (induction "length xs - k" arbitrary: k s)
  case 0
  then have k: "k = length xs" by simp
  let ?h1 = "ResponseHandler p1 rt t1" and ?h2 = "ResponseHandler p2 rt t2"
  let ?s1 = "finish p1 rt t1 (ResolvedWith m) s"
  have at: "(xs @ [?h1, ?h2]) ! k = ?h1" using k by simp
  have notin: "?h1 \<notin> set xs" using "0.prems"(2) by (auto simp: list_all_iff)
  have l1: "eventListeners ?s1 rt = Some (xs @ [?h2])"
    using "0.prems"(1) notin by (simp add: listeners_finish remove1_append)
  have "emit_from k len rt (MessageEvent m) s
      = emit_from (k + 1) len rt (MessageEvent m) (call_listener ?h1 (MessageEvent m) s)"
    using "0.prems"(1,4) k at by (subst emit_from.simps) simp
  also have "call_listener ?h1 (MessageEvent m) s = ?s1"
    using "0.prems"(7) by (simp add: finish_def)
  also have "emit_from (k + 1) len rt (MessageEvent m) ?s1
      = emit_from (k + 2) len rt (MessageEvent m) ?s1"
    using l1 "0.prems"(4) k by (subst emit_from.simps) simp
  also have "\<dots> = ?s1"
    using "0.prems"(4) k by (subst emit_from.simps) simp
  finally have "emit_from k len rt (MessageEvent m) s = ?s1" .
  then show ?case using l1 "0.prems"(6) by simp
next
  case (Suc n)
  then have k: "k < length xs" by simp
  let ?h1 = "ResponseHandler p1 rt t1" and ?h2 = "ResponseHandler p2 rt t2"
  have "is_external (xs ! k)" using Suc.prems(2) k by (simp add: list_all_length)
  then obtain e where e: "xs ! k = External e" by (cases "xs ! k") auto
  have at: "(xs @ [?h1, ?h2]) ! k = External e" using k e by (simp add: nth_append)
  let ?s1 = "s\<lparr>notified := notified s @ [(e, MessageEvent m)]\<rparr>"
  have step: "emit_from k len rt (MessageEvent m) s = emit_from (k + 1) len rt (MessageEvent m) ?s1"
    using Suc.prems(1,4) k at by (subst emit_from.simps) simp
  have "eventListeners (emit_from (k + 1) len rt (MessageEvent m) ?s1) rt = Some (xs @ [?h2])
       \<and> settled (emit_from (k + 1) len rt (MessageEvent m) ?s1) p2 = settled ?s1 p2"
  proof (rule Suc.hyps(1))
    show "n = length xs - (k + 1)" using Suc.hyps(2) by simp
    show "eventListeners ?s1 rt = Some (xs @ [?h1, ?h2])" using Suc.prems(1) by simp
    show "list_all is_external xs" by (rule Suc.prems(2))
    show "k + 1 \<le> length xs" using k by simp
    show "len = length xs + 2" by (rule Suc.prems(4))
    show "settled ?s1 p1 = None" using Suc.prems(5) by simp
    show "p1 \<noteq> p2" by (rule Suc.prems(6))
    show "mtype m = rt" by (rule Suc.prems(7))
  qed
  with step show ?case by simp
qed

lemma resolved_handleMessage: "resolved p v t s \<Longrightarrow> resolved p v t (handleMessage m s)"
proof -
  assume r: "resolved p v t s"
  have "resolved p v t (setSessionId sid s)" for sid
  proof -
    have "resolved p v t (s\<lparr>sessionId := Some sid\<rparr>)" using r by (simp add: resolved_def)
    then show ?thesis by (simp add: setSessionId_def resolved_emit)
  qed
  with r show ?thesis
    by (simp add: handleMessage_def Let_def resolved_emit split: option.splits)
qed

lemma next_after_call:
  "nextPromise (snd (sendWithResponse m rt s)) = nextPromise s + 1"
  "nextTimer (snd (sendWithResponse m rt s)) = nextTimer s + 1"
  by (simp_all add: sendWithResponse_def Let_def)

lemma two_calls:
  assumes w: "wf_service s" and np: "no_pending rt s" and nm: "rt \<noteq> ''message''"
    and ty: "mtype r = rt"
  shows "settled (snd (sendWithResponse m2 rt (snd (sendWithResponse m1 rt s)))) (nextPromise s) = None
     \<and> settled (snd (sendWithResponse m2 rt (snd (sendWithResponse m1 rt s)))) (nextPromise s + 1) = None
     \<and> settled (handleMessage r (snd (sendWithResponse m2 rt (snd (sendWithResponse m1 rt s)))))
          (nextPromise s) = Some (ResolvedWith r)
     \<and> pending_inv True (nextPromise s + 1) rt (nextTimer s + 1)
          (handleMessage r (snd (sendWithResponse m2 rt (snd (sendWithResponse m1 rt s)))))"
proof -
  define p1 where "p1 = nextPromise s"
  define t1 where "t1 = nextTimer s"
  define p2 where "p2 = nextPromise s + 1"
  define t2 where "t2 = nextTimer s + 1"
  define s1 where "s1 = snd (sendWithResponse m1 rt s)"
  define s2 where "s2 = snd (sendWithResponse m2 rt s1)"
  define h1 where "h1 = ResponseHandler p1 rt t1"
  define h2 where "h2 = ResponseHandler p2 rt t2"
  have w1: "wf_service s1" unfolding s1_def by (rule wf_service_sendWithResponse[OF w])
  have n1: "nextPromise s1 = p2" "nextTimer s1 = t2"
    by (simp_all add: s1_def p2_def t2_def next_after_call)
  have inv1: "pending_inv True p1 rt t1 s1"
    using pending_after_call[OF w, of rt m1] heads_after_call[OF np, of m1]
    by (simp add: pending_inv_def p1_def t1_def s1_def)
  have inv12: "pending_inv True p1 rt t1 s2"
    unfolding s2_def by (rule pending_sendWithResponse[OF inv1])
  have inv2: "pending_inv False p2 rt t2 s2"
    using pending_after_call[OF w1, of rt m2] by (simp add: n1 s2_def)
  have ne12: "p1 \<noteq> p2" by (simp add: p1_def p2_def)
  obtain xs where xs: "list_all is_external xs" "eventListeners s1 rt = Some (xs @ [h1])"
  proof (cases "eventListeners s rt")
    case None
    then have "eventListeners s1 rt = Some ([] @ [h1])"
      by (simp add: s1_def h1_def p1_def t1_def listeners_sendWithResponse on_def)
    then show ?thesis using that[of "[]"] by simp
  next
    case (Some ls)
    with np have "list_all is_external ls" by (simp add: no_pending_def)
    moreover from Some have "eventListeners s1 rt = Some (ls @ [h1])"
      by (simp add: s1_def h1_def p1_def t1_def listeners_sendWithResponse on_def)
    ultimately show ?thesis using that by blast
  qed
  have l2: "eventListeners s2 rt = Some (xs @ [h1, h2])"
    using xs(2) by (simp add: s2_def h2_def n1 listeners_sendWithResponse on_def)
  define s2' where "s2' =
     (if mtype r = ''connection_response'' \<and> mdata r \<noteq> NoData
      then (case data_session_id (mdata r) of
              Some sid \<Rightarrow> if sid \<noteq> [] then setSessionId sid s2 else s2
            | None \<Rightarrow> s2)
      else s2)"
  have l2': "eventListeners s2' = eventListeners s2"
    by (simp add: s2'_def setSessionId_frame split: option.splits)
  have inv2': "pending_inv False p2 rt t2 s2'" "pending_inv True p1 rt t1 s2'"
    using inv2 inv12 by (simp_all add: s2'_def pending_setSessionId split: option.splits)
  define s2e where "s2e = s2'\<lparr>emitted := emitted s2' @ [(rt, MessageEvent r)]\<rparr>"
  define sA where "sA = emit rt (MessageEvent r) s2'"
  have l2e: "eventListeners s2e rt = Some (xs @ [ResponseHandler p1 rt t1, ResponseHandler p2 rt t2])"
    using l2 l2' by (simp add: s2e_def h1_def h2_def)
  have pe1: "settled s2e p1 = None" and pe2: "settled s2e p2 = None"
    using inv2' by (simp_all add: s2e_def pending_inv_def)
  have sA: "sA = emit_from 0 (length xs + 2) rt (MessageEvent r) s2e"
    using l2 l2' by (simp add: sA_def s2e_def emit_def Let_def)
  have first: "eventListeners sA rt = Some (xs @ [ResponseHandler p2 rt t2])
       \<and> settled sA p2 = settled s2e p2"
    unfolding sA
    by (rule emit_from_first_of_two[OF l2e xs(1) _ _ pe1 ne12 ty]) simp_all
  have pA: "settled sA p2 = None" using first pe2 by simp
  have wA: "wf_service sA" and trA: "tracked p2 rt t2 sA" and soA: "sole p2 rt t2 sA"
    using inv2'(1) by (simp_all add: sA_def pending_inv_def wf_emit tracked_emit sole_emit)
  have hdA: "heads rt (ResponseHandler p2 rt t2) sA"
  proof -
    have "eventListeners sA rt = Some (xs @ ResponseHandler p2 rt t2 # [])" using first by simp
    with xs(1) show ?thesis unfolding heads_def by blast
  qed
  have invA: "pending_inv True p2 rt t2 sA"
    using wA trA soA pA hdA by (simp add: pending_inv_def)
  define sB where "sB = emit ''message'' (MessageEvent r) sA"
  have ne: "edata_type (MessageEvent r) \<noteq> Some ''message''" using ty nm by simp
  have "pending_inv True p2 rt t2 sB = pending_inv True p2 rt t2 sA"
    unfolding sB_def
    by (rule pending_inv_cong; rule emit_nomatch[OF wA ne]) simp_all
  with invA have invB: "pending_inv True p2 rt t2 sB" by simp
  have hm: "handleMessage r s2 = sB"
    using ty by (simp add: handleMessage_def Let_def sB_def sA_def s2'_def)
  have "settled (handleMessage r s2) p1 = Some (ResolvedWith r)"
    using response_resolves[OF inv12 ty] by (simp add: resolved_def)
  moreover have "settled s2 p1 = None" "settled s2 p2 = None"
    using inv12 inv2 by (simp_all add: pending_inv_def)
  ultimately show ?thesis
    using invB hm by (simp add: p1_def p2_def t1_def t2_def s1_def s2_def)
qed

lemma exec_sends_offline:
  "\<not> isConnected s \<Longrightarrow>
   exec (map SendMessage ms) s = Some (s\<lparr>messageQueue := messageQueue s @ ms\<rparr>)"
proof (induction ms arbitrary: s)
  case Nil
  then show ?case by simp
next
  case (Cons m ms)
  have 1: "sendMessage m s = s\<lparr>messageQueue := messageQueue s @ [m]\<rparr>"
    using Cons.prems by (simp add: sendMessage_def)
  have 2: "\<not> isConnected (s\<lparr>messageQueue := messageQueue s @ [m]\<rparr>)"
    using Cons.prems by simp
  show ?case using Cons.IH[OF 2] by (simp add: 1)
qed

lemma disconnect_handler_offline:
  "\<not> isConnected (disconnect_handler reason (set_connected False s))"
  "messageQueue (disconnect_handler reason (set_connected False s)) = messageQueue s"
  "transmitted (disconnect_handler reason (set_connected False s)) = transmitted s"
  "socket (disconnect_handler reason (set_connected False s)) = socket (set_connected False s)"
proof -
  have "socket (disconnect_handler reason (set_connected False s)) = socket (set_connected False s)"
    by (simp add: disconnect_handler_def emit_quiet)
  then show "\<not> isConnected (disconnect_handler reason (set_connected False s))"
      "socket (disconnect_handler reason (set_connected False s)) = socket (set_connected False s)"
    by (simp_all add: isConnected_def set_connected_def split: option.splits)
  show "messageQueue (disconnect_handler reason (set_connected False s)) = messageQueue s"
    "transmitted (disconnect_handler reason (set_connected False s)) = transmitted s"
    by (simp_all add: disconnect_handler_def emit_quiet)
qed

lemma connect_handler_keeps_queue:
  "messageQueue (connect_handler s) = messageQueue s"
  "transmitted (connect_handler s) = transmitted s"
  "sessionId (connect_handler s) = sessionId s"
  "socket (connect_handler s) = socket s"
  by (simp_all add: connect_handler_def)

lemma reconnect_handler_offline:
  "\<not> isConnected s \<Longrightarrow> reconnect_handler n s = Some (emit ''reconnect'' (ReconnectEvent n) s)"
  by (simp add: reconnect_handler_def flush_stop)

lemma queued_after_reconnection:
  assumes es: "es = [Socket SockConnect] \<or> es = [Socket (SockReconnect n), Socket SockConnect]"
  shows "\<exists>s'. exec (Socket (SockDisconnect reason) # map SendMessage ms @ es) s = Some s'
          \<and> messageQueue s' = messageQueue s @ ms \<and> transmitted s' = transmitted s
          \<and> (socket s \<noteq> None \<longrightarrow> isConnected s')"
proof -
  let ?s0 = "disconnect_handler reason (set_connected False s)"
  let ?s1 = "?s0\<lparr>messageQueue := messageQueue ?s0 @ ms\<rparr>"
  have off0: "\<not> isConnected ?s0" by (rule disconnect_handler_offline)
  have sends: "exec (map SendMessage ms) ?s0 = Some ?s1"
    by (rule exec_sends_offline[OF off0])
  have off1: "\<not> isConnected ?s1" using off0 by simp
  have q1: "messageQueue ?s1 = messageQueue s @ ms" "transmitted ?s1 = transmitted s"
    by (simp_all add: disconnect_handler_offline)
  have "socket ?s0 = socket (set_connected False s)" by (rule disconnect_handler_offline)
  then have sock1: "socket s \<noteq> None \<Longrightarrow> socket ?s1 \<noteq> None"
    by (auto simp: set_connected_def)
  have conn: "socket x \<noteq> None \<Longrightarrow> isConnected (connect_handler (set_connected True x))" for x
    by (auto simp: isConnected_def connect_handler_keeps_queue set_connected_def)
  let ?s2 = "emit ''reconnect'' (ReconnectEvent n) ?s1"
  have q2: "messageQueue ?s2 = messageQueue s @ ms" "transmitted ?s2 = transmitted s"
      "socket ?s2 = socket ?s1"
    using q1 by (simp_all add: emit_quiet)
  from es show ?thesis
  proof
    assume e: "es = [Socket SockConnect]"
    have "exec (Socket (SockDisconnect reason) # map SendMessage ms @ es) s
        = Some (connect_handler (set_connected True ?s1))"
      using sends by (simp add: e exec_append)
    moreover have "messageQueue (connect_handler (set_connected True ?s1)) = messageQueue s @ ms"
        "transmitted (connect_handler (set_connected True ?s1)) = transmitted s"
      using q1 by (simp_all add: connect_handler_keeps_queue)
    ultimately show ?thesis using conn[of ?s1] sock1 by simp
  next
    assume e: "es = [Socket (SockReconnect n), Socket SockConnect]"
    have "exec (Socket (SockDisconnect reason) # map SendMessage ms @ es) s
        = Some (connect_handler (set_connected True ?s2))"
      using sends reconnect_handler_offline[OF off1, of n] by (simp add: e exec_append)
    moreover have "messageQueue (connect_handler (set_connected True ?s2)) = messageQueue s @ ms"
        "transmitted (connect_handler (set_connected True ?s2)) = transmitted s"
      using q2 by (simp_all add: connect_handler_keeps_queue)
    ultimately show ?thesis using conn[of ?s2] sock1 q2(3) by simp
  qed
qed





section \<open>The claims\<close>

subsection \<open>Claim C1\<close>

text \<open>
  Claim C1. The code does not number the chunks of a pass \<open>0, 1, \<dots>, n-1\<close>. In a
  recording pass of the audio service in which every blob is converted before the
  recorder delivers the next one, \<open>startRecording\<close> sets the counter to 0, the
  \<open>ondataavailable\<close> handler increments it before the chunk is emitted, and the chunks
  carry exactly \<open>1, 2, \<dots>, n\<close>; the counter ends at \<open>n\<close>. No chunk is marked final: the
  \<open>audio_chunk\<close> event has no such field, the listener of the screen would forward a
  chunk with \<open>is_final = false\<close>, and as it is registered it forwards nothing. In the
  native module the first sequence number is 1 as well, and \<open>startRecording\<close> does not
  reset the counter.
\<close>

theorem recording_pass_sequences:
  assumes idle: "\<not> isRecording s" and quiet: "processing s = []"
    and bound: "length (filter (\<lambda>b. b \<noteq> []) blobs) \<le> 2 ^ 53"
  shows "sequence (run_audio [StartRecording, MediaSettled None t0] s) = 0
     \<and> mediaRecorder (run_audio [StartRecording, MediaSettled None t0] s) = Some (recorders s)
     \<and> chunk_sequences (audioEmitted
          (run_audio ([StartRecording, MediaSettled None t0] @ prompt_schedule (recorders s) blobs now) s))
         = chunk_sequences (audioEmitted s) @ [1 ..< 1 + length (filter (\<lambda>b. b \<noteq> []) blobs)]
     \<and> ((\<exists>b\<in>set blobs. b \<noteq> []) \<longrightarrow>
          chunk_sequences (audioEmitted
             (run_audio ([StartRecording, MediaSettled None t0] @ prompt_schedule (recorders s) blobs now) s))
            \<noteq> chunk_sequences (audioEmitted s) @ [0 ..< length (filter (\<lambda>b. b \<noteq> []) blobs)])
     \<and> sequence (run_audio ([StartRecording, MediaSettled None t0] @ prompt_schedule (recorders s) blobs now) s)
         = length (filter (\<lambda>b. b \<noteq> []) blobs)
     \<and> (screen_audio_chunk captured now' mid (AudioChunk blob sq ts) w = w
          \<or> (\<exists>msg. screen_audio_chunk captured now' mid (AudioChunk blob sq ts) w = sendMessage msg w
                \<and> data_sequence (mdata msg) = Some sq \<and> data_is_final (mdata msg) = Some False))
     \<and> audio_chunk_listener now' mid e w = w
     \<and> fst (getNextSequence new_recorder_module) = 1
     \<and> sequenceCounter (snd (native_startRecording initialized m)) = sequenceCounter m"
proof -
  let ?s1 = "run_audio [StartRecording, MediaSettled None t0] s"
  let ?n = "length (filter (\<lambda>b. b \<noteq> []) blobs)"
  let ?s2 = "run_audio ([StartRecording, MediaSettled None t0] @ prompt_schedule (recorders s) blobs now) s"
  have s1: "sequence ?s1 = 0" "processing ?s1 = []" "mediaRecorder ?s1 = Some (recorders s)"
      "chunk_sequences (audioEmitted ?s1) = chunk_sequences (audioEmitted s)"
      "recorders s < recorders ?s1"
    using idle quiet
    by (simp_all add: run_audio_def startRecording_def startRecording_resume_def Let_def
          chunk_sequences_append)
  have s2: "?s2 = run_audio (prompt_schedule (recorders s) blobs now) ?s1"
    by (rule run_audio_append)
  have "sequence ?s1 + ?n \<le> 2 ^ 53" using bound s1(1) by simp
  from run_prompt[OF s1(2) this s1(5), of now]
  have run: "chunk_sequences (audioEmitted ?s2) = chunk_sequences (audioEmitted s) @ [1 ..< 1 + ?n]"
      "sequence ?s2 = ?n"
    using s1 s2 by simp_all
  have ne: "(\<exists>b\<in>set blobs. b \<noteq> []) \<longrightarrow>
      chunk_sequences (audioEmitted ?s2) \<noteq> chunk_sequences (audioEmitted s) @ [0 ..< ?n]"
  proof
    assume "\<exists>b\<in>set blobs. b \<noteq> []"
    then have "filter (\<lambda>b. b \<noteq> []) blobs \<noteq> []" by (simp add: filter_empty_conv)
    then have "0 < ?n" by blast
    then have "hd [1 ..< 1 + ?n] = 1" "hd [0 ..< ?n] = 0" "[1 ..< 1 + ?n] \<noteq> []"
      by (simp_all add: upt_conv_Cons del: upt_Suc)
    then have "[1 ..< 1 + ?n] \<noteq> [0 ..< ?n]" by (metis zero_neq_one)
    then show "chunk_sequences (audioEmitted ?s2) \<noteq> chunk_sequences (audioEmitted s) @ [0 ..< ?n]"
      using run(1) by simp
  qed
  have scr: "screen_audio_chunk captured now' mid (AudioChunk blob sq ts) w = w
          \<or> (\<exists>msg. screen_audio_chunk captured now' mid (AudioChunk blob sq ts) w = sendMessage msg w
                \<and> data_sequence (mdata msg) = Some sq \<and> data_is_final (mdata msg) = Some False)"
    by (cases captured) (auto simp: screen_audio_chunk_def sendAudioData_def)
  have lis: "audio_chunk_listener now' mid e w = w"
    by (simp add: audio_chunk_listener_def screen_audio_chunk_def initial_sessionId_def)
  have nat: "fst (getNextSequence new_recorder_module) = 1"
      "sequenceCounter (snd (native_startRecording initialized m)) = sequenceCounter m"
    by (simp_all add: getNextSequence_def new_recorder_module_def native_startRecording_def Let_def)
  show ?thesis
    using s1(1,3) run ne scr lis nat by blast
qed

theorem recording_pass_sequences_witness:
  "sequence (run_audio [StartRecording, MediaSettled None 5] new_audio_service) = 0
   \<and> chunk_sequences (audioEmitted
        (run_audio ([StartRecording, MediaSettled None 5] @ prompt_schedule 0 [''abc'', [], ''de''] 7)
           new_audio_service)) = [1, 2]
   \<and> [1, 2] \<noteq> [0, 1 :: nat]
   \<and> sequence (run_audio ([StartRecording, MediaSettled None 5] @ prompt_schedule 0 [''abc'', [], ''de''] 7)
        new_audio_service) = 2"
  using recording_pass_sequences [of new_audio_service "[''abc'', [], ''de'']" 5 7]
  by (simp add: audio_defs)

subsection \<open>Claim C2\<close>

text \<open>
  Claim C2. The queue is not flushed when the connection comes back. Messages passed to
  \<open>sendMessage\<close> after the socket has disconnected are appended to the queue in the
  order of the calls. \<open>flushMessageQueue\<close> is called by the \<open>reconnect\<close> handler only,
  and it sends nothing while the socket does not report \<open>connected\<close>; the \<open>connect\<close>
  handler does not call it. So after a disconnection, any number of sends, and the
  events \<open>reconnect\<close> and \<open>connect\<close> (or \<open>connect\<close> alone), the socket is connected,
  every message is still in the queue and nothing was transmitted.
\<close>

theorem reconnection_leaves_queue:
  "(\<not> isConnected s0 \<longrightarrow>
      reconnect_handler n s0 = Some (emit ''reconnect'' (ReconnectEvent n) s0)
      \<and> messageQueue (emit ''reconnect'' (ReconnectEvent n) s0) = messageQueue s0
      \<and> transmitted (emit ''reconnect'' (ReconnectEvent n) s0) = transmitted s0)
   \<and> messageQueue (connect_handler (set_connected True s0)) = messageQueue s0
   \<and> transmitted (connect_handler (set_connected True s0)) = transmitted s0
   \<and> (\<exists>s'. exec (Socket (SockDisconnect reason) # map SendMessage ms
                    @ [Socket (SockReconnect n), Socket SockConnect]) s = Some s'
          \<and> messageQueue s' = messageQueue s @ ms \<and> transmitted s' = transmitted s
          \<and> (socket s \<noteq> None \<longrightarrow> isConnected s'))
   \<and> (\<exists>s'. exec (Socket (SockDisconnect reason) # map SendMessage ms @ [Socket SockConnect]) s = Some s'
          \<and> messageQueue s' = messageQueue s @ ms \<and> transmitted s' = transmitted s
          \<and> (socket s \<noteq> None \<longrightarrow> isConnected s'))"
proof -
  have a: "\<not> isConnected s0 \<longrightarrow>
      reconnect_handler n s0 = Some (emit ''reconnect'' (ReconnectEvent n) s0)
      \<and> messageQueue (emit ''reconnect'' (ReconnectEvent n) s0) = messageQueue s0
      \<and> transmitted (emit ''reconnect'' (ReconnectEvent n) s0) = transmitted s0"
    by (simp add: reconnect_handler_offline emit_quiet)
  have b: "messageQueue (connect_handler (set_connected True s0)) = messageQueue s0"
      "transmitted (connect_handler (set_connected True s0)) = transmitted s0"
    by (simp_all add: connect_handler_keeps_queue)
  have c: "\<exists>s'. exec (Socket (SockDisconnect reason) # map SendMessage ms
                    @ [Socket (SockReconnect n), Socket SockConnect]) s = Some s'
          \<and> messageQueue s' = messageQueue s @ ms \<and> transmitted s' = transmitted s
          \<and> (socket s \<noteq> None \<longrightarrow> isConnected s')"
    by (rule queued_after_reconnection) simp
  have d: "\<exists>s'. exec (Socket (SockDisconnect reason) # map SendMessage ms @ [Socket SockConnect]) s = Some s'
          \<and> messageQueue s' = messageQueue s @ ms \<and> transmitted s' = transmitted s
          \<and> (socket s \<noteq> None \<longrightarrow> isConnected s')"
    by (rule queued_after_reconnection) simp
  from a b c d show ?thesis by blast
qed

theorem reconnection_leaves_queue_witness:
  "map_option (\<lambda>s. (isConnected s, transmitted s, messageQueue s))
     (exec [Connect None, Socket SockConnect, Socket (SockDisconnect ''transport close''),
            SendMessage (plain_message ''audio_start'' ''m1''),
            SendMessage (plain_message ''audio_stop'' ''m2''),
            Socket (SockReconnect 1), Socket SockConnect]
        (new_service (\<lambda>n. False)))
   = Some (True, [], [plain_message ''audio_start'' ''m1'', plain_message ''audio_stop'' ''m2''])"
proof -
  define c where "c = connect_handler (set_connected True (snd (connect None (new_service (\<lambda>n. False)))))"
  have pre: "exec [Connect None, Socket SockConnect] (new_service (\<lambda>n. False)) = Some c"
    by (simp add: c_def)
  have fields: "socket c \<noteq> None" "messageQueue c = []" "transmitted c = []"
    "\<not> isConnected (new_service (\<lambda>n. False))"
    by (simp_all add: c_def run_defs)
  from reconnection_leaves_queue
    [of "new_service (\<lambda>n. False)" 1 "''transport close''"
        "[plain_message ''audio_start'' ''m1'', plain_message ''audio_stop'' ''m2'']" c]
  obtain s' where s': "exec (Socket (SockDisconnect ''transport close'')
         # map SendMessage [plain_message ''audio_start'' ''m1'', plain_message ''audio_stop'' ''m2'']
         @ [Socket (SockReconnect 1), Socket SockConnect]) c = Some s'"
      "messageQueue s' = [plain_message ''audio_start'' ''m1'', plain_message ''audio_stop'' ''m2'']"
      "transmitted s' = []" "isConnected s'"
    using fields by auto
  have "exec ([Connect None, Socket SockConnect] @ (Socket (SockDisconnect ''transport close'')
         # map SendMessage [plain_message ''audio_start'' ''m1'', plain_message ''audio_stop'' ''m2'']
         @ [Socket (SockReconnect 1), Socket SockConnect])) (new_service (\<lambda>n. False)) = Some s'"
    by (simp only: exec_append pre option.case s'(1))
  then show ?thesis using s'(2-4) by simp
qed

subsection \<open>Claim C3\<close>

text \<open>
  Claim C3, as amended. The \<open>connect\<close> handler starts an interval of 30000 ms. When
  it comes due and the socket is connected, the service sends one
  \<open>heartbeat_response\<close> message through \<open>sendMessage\<close>; when the socket is not
  connected it does nothing. No timer that comes due changes the socket, the session
  id, the connecting flag or the heartbeat interval: the service has no deadline for a
  reply and never tears the connection down on its own. Both ways of disconnecting
  stop the interval: the field is null afterwards and the timer is cleared.
\<close>

theorem heartbeat_only_sends:
  "socket (fire_timer t now mid s) = socket s
   \<and> sessionId (fire_timer t now mid s) = sessionId s
   \<and> isConnecting (fire_timer t now mid s) = isConnecting s
   \<and> heartbeatInterval (fire_timer t now mid s) = heartbeatInterval s
   \<and> (timers s t = Some (HeartbeatTimer d) \<longrightarrow>
        timers (fire_timer t now mid s) = timers s
        \<and> fire_timer t now mid s
            = (if isConnected s then sendMessage (heartbeat_message now mid) s else s))
   \<and> (\<exists>h. heartbeatInterval (connect_handler s) = Some h
          \<and> timers (connect_handler s) h = Some (HeartbeatTimer 30000))
   \<and> heartbeatInterval (disconnect_handler reason s) = None
   \<and> (heartbeatInterval s = Some h' \<longrightarrow> timers (disconnect_handler reason s) h' = None)
   \<and> (socket s \<noteq> None \<longrightarrow> heartbeatInterval (disconnect s) = None)
   \<and> (socket s \<noteq> None \<and> heartbeatInterval s = Some h' \<longrightarrow> timers (disconnect s) h' = None)"
proof -
  have a: "timers s t = Some (HeartbeatTimer d) \<longrightarrow>
        timers (fire_timer t now mid s) = timers s
        \<and> fire_timer t now mid s
            = (if isConnected s then sendMessage (heartbeat_message now mid) s else s)"
    by (simp add: fire_timer_def sendHeartbeatResponse_def heartbeat_message_def)
  have b: "\<exists>h. heartbeatInterval (connect_handler s) = Some h
          \<and> timers (connect_handler s) h = Some (HeartbeatTimer 30000)"
    by (simp add: connect_handler_def startHeartbeat_def Let_def)
  have c: "heartbeatInterval (disconnect_handler reason s) = None"
    by (simp add: disconnect_handler_def emit_quiet)
  have d: "socket s \<noteq> None \<longrightarrow> heartbeatInterval (disconnect s) = None"
    by (auto simp: disconnect_def Let_def disconnect_handler_def emit_quiet)
  have e: "socket s \<noteq> None \<and> heartbeatInterval s = Some h' \<longrightarrow> timers (disconnect s) h' = None"
    by (auto simp: disconnect_def Let_def timers_disconnect_handler timers_stopHeartbeat)
  show ?thesis
    using a b c d e
    by (simp add: socket_fire_timer sessionId_fire_timer isConnecting_fire_timer
        heartbeatInterval_fire_timer timers_disconnect_handler)
qed

theorem heartbeat_only_sends_witness:
  "map_option (\<lambda>s. (isConnected s, transmitted s, heartbeatInterval s, timers s 0))
     (exec [Connect None, Socket SockConnect, TimerDue 0 ''t1'' ''m1'']
        (new_service (\<lambda>n. False)))
   = Some (True, [heartbeat_message ''t1'' ''m1''], Some 0, Some (HeartbeatTimer 30000))
   \<and> heartbeatInterval
        (disconnect_handler ''transport close''
           (set_connected False (connect_handler (set_connected True
              (snd (connect None (new_service (\<lambda>n. False)))))))) = None
   \<and> map_option (\<lambda>s. (heartbeatInterval s, timers s 0, heartbeatInterval (disconnect s),
                        timers (disconnect s) 0))
        (exec [Connect None, Socket SockConnect] (new_service (\<lambda>n. False)))
     = Some (Some 0, Some (HeartbeatTimer 30000), None, None)"
  using heartbeat_only_sends
    [of 0 "''t1''" "''m1''"
        "connect_handler (set_connected True (snd (connect None (new_service (\<lambda>n. False)))))"
        30000 "''transport close''" 0]
  by (simp add: run_defs heartbeat_message_def)

text \<open>
  The claim as stated fails: after three periods without any inbound message the
  socket is still connected, the interval is still running, the service has emitted
  nothing, and what it sent are \<open>heartbeat_response\<close> messages.
\<close>

theorem heartbeat_no_teardown_counterexample:
  "map_option (\<lambda>s. (isConnected s, map mtype (transmitted s), heartbeatInterval s, timers s 0,
                     emitted s))
     (exec [Connect None, Socket SockConnect,
            TimerDue 0 ''t+30s'' ''m1'', TimerDue 0 ''t+60s'' ''m2'', TimerDue 0 ''t+90s'' ''m3'']
        (new_service (\<lambda>n. False)))
   = Some (True, [''heartbeat_response'', ''heartbeat_response'', ''heartbeat_response''],
           Some 0, Some (HeartbeatTimer 30000), [])"
  by (simp add: run_defs)

subsection \<open>Claim C4\<close>

text \<open>
  Claim C4, as amended. The service computes no delay and counts no attempts itself:
  \<open>connect\<close> hands the socket.io client the options \<open>reconnectionAttempts = 5\<close>,
  \<open>reconnectionDelay = 1000\<close> and \<open>timeout = 10000\<close>, in every state that can be
  reached. Through any series of failed attempts it emits one \<open>reconnect_attempt\<close>
  event for each attempt and nothing else, keeps its socket, its timers and its attempt
  counter, and settles no promise but the one of \<open>connect\<close>: no terminal failure
  event exists.
\<close>

theorem reconnection_delegated:
  assumes reach: "exec pre (new_service f) = Some s"
    and idle: "\<not> isConnected s" "\<not> isConnecting s"
    and fails: "\<forall>e\<in>set es. failed_attempt_event e"
  shows "map_option options (socket (snd (connect None s)))
           = Some \<lparr> transports = [''websocket''], timeout = 10000, reconnection = True,
                    reconnectionAttempts = 5, reconnectionDelay = 1000 \<rparr>
     \<and> (\<exists>s'. exec (map Socket es) s0 = Some s'
           \<and> emitted s' = emitted s0 @ attempt_notices es
           \<and> socket s' = socket s0 \<and> reconnectAttempts s' = reconnectAttempts s0
           \<and> timers s' = timers s0
           \<and> (\<forall>p. connectPromise s0 \<noteq> Some p \<longrightarrow> settled s' p = settled s0 p))"
proof -
  from config_exec[OF reach]
  have "maxReconnectAttempts s = 5" "reconnectInterval s = 1000"
    by (simp_all add: new_service_def)
  then have "map_option options (socket (snd (connect None s)))
           = Some \<lparr> transports = [''websocket''], timeout = 10000, reconnection = True,
                    reconnectionAttempts = 5, reconnectionDelay = 1000 \<rparr>"
    using idle by (simp add: connect_def Let_def)
  moreover from failed_attempts_run[OF fails, of s0]
  have "\<exists>s'. exec (map Socket es) s0 = Some s'
           \<and> emitted s' = emitted s0 @ attempt_notices es
           \<and> socket s' = socket s0 \<and> reconnectAttempts s' = reconnectAttempts s0
           \<and> timers s' = timers s0
           \<and> (\<forall>p. connectPromise s0 \<noteq> Some p \<longrightarrow> settled s' p = settled s0 p)"
    by blast
  ultimately show ?thesis by blast
qed

theorem reconnection_delegated_witness:
  "map_option options (socket (snd (connect None (new_service (\<lambda>n. False)))))
     = Some \<lparr> transports = [''websocket''], timeout = 10000, reconnection = True,
              reconnectionAttempts = 5, reconnectionDelay = 1000 \<rparr>
   \<and> map_option emitted (exec (map Socket five_failed_attempts) (new_service (\<lambda>n. False)))
     = Some [(''reconnect_attempt'', ReconnectAttemptEvent 1),
             (''reconnect_attempt'', ReconnectAttemptEvent 2),
             (''reconnect_attempt'', ReconnectAttemptEvent 3),
             (''reconnect_attempt'', ReconnectAttemptEvent 4),
             (''reconnect_attempt'', ReconnectAttemptEvent 5)]"
  using reconnection_delegated
    [of "[]" "\<lambda>n. False" "new_service (\<lambda>n. False)" five_failed_attempts
        "new_service (\<lambda>n. False)"]
  by (simp add: run_defs five_failed_attempts_def)

text \<open>
  The claim as stated fails: after a dropped connection and five failed attempts,
  ended by \<open>reconnect_failed\<close>, the service has emitted the \<open>disconnect\<close> event and
  five \<open>reconnect_attempt\<close> events, and no failure event; the promise of \<open>connect\<close>
  stays resolved, the socket stays in place and the attempt counter is 0.
\<close>

theorem no_terminal_failure_counterexample:
  "map_option (\<lambda>s. (emitted s, settled s 0, socket s \<noteq> None, reconnectAttempts s))
     (exec ([Connect None, Socket SockConnect, Socket (SockDisconnect ''transport close'')]
            @ map Socket five_failed_attempts)
        (new_service (\<lambda>n. False)))
   = Some ([(''disconnect'', DisconnectEvent ''transport close''),
            (''reconnect_attempt'', ReconnectAttemptEvent 1),
            (''reconnect_attempt'', ReconnectAttemptEvent 2),
            (''reconnect_attempt'', ReconnectAttemptEvent 3),
            (''reconnect_attempt'', ReconnectAttemptEvent 4),
            (''reconnect_attempt'', ReconnectAttemptEvent 5)],
           Some ResolvedVoid, True, 0)"
  by (simp add: run_defs five_failed_attempts_def)

subsection \<open>Claim C5\<close>




subsection \<open>Claim C6\<close>




subsection \<open>Claim C7\<close>

text \<open>
  Claim C7, as amended. The service never fails a request fast: a second
  \<open>sendConnectionRequest\<close> made while the first is pending is itself pending. When
  the two calls follow each other directly and no other call awaited the response
  before, the first \<open>connection_response\<close> resolves the first call only, and the
  second call is resolved by the next \<open>connection_response\<close>, or rejected by its own
  timeout.
\<close>

theorem second_request_waits:
  assumes reach: "exec pre (new_service f) = Some s"
    and np: "no_pending ''connection_response'' s"
    and c1: "sendConnectionRequest now1 mid1 cid1 caps1 s = (p1, s1)"
    and c2: "sendConnectionRequest now2 mid2 cid2 caps2 s1 = (p2, s2)"
    and ty: "mtype r1 = ''connection_response''" "mtype r2 = ''connection_response''"
  shows "p2 \<noteq> p1 \<and> settled s2 p1 = None \<and> settled s2 p2 = None
     \<and> settled (handleMessage r1 s2) p1 = Some (ResolvedWith r1)
     \<and> settled (handleMessage r1 s2) p2 = None
     \<and> settled (handleMessage r2 (handleMessage r1 s2)) p1 = Some (ResolvedWith r1)
     \<and> settled (handleMessage r2 (handleMessage r1 s2)) p2 = Some (ResolvedWith r2)
     \<and> settled (fire_timer (nextTimer s1) now mid (handleMessage r1 s2)) p2
          = Some (Rejected ''Timeout waiting for connection_response'')"
proof -
  let ?rt = "''connection_response''"
  define m1 where "m1 = \<lparr> mtype = ''connection_request'', timestamp = now1,
         mdata = ConnectionRequestData cid1 ''1.0.0'' caps1, message_id = mid1 \<rparr>"
  define m2 where "m2 = \<lparr> mtype = ''connection_request'', timestamp = now2,
         mdata = ConnectionRequestData cid2 ''1.0.0'' caps2, message_id = mid2 \<rparr>"
  have w: "wf_service s" by (rule wf_service_reachable[OF reach])
  have e1: "sendWithResponse m1 ?rt s = (p1, s1)"
    using c1 by (simp add: sendConnectionRequest_def m1_def)
  have e2: "sendWithResponse m2 ?rt s1 = (p2, s2)"
    using c2 by (simp add: sendConnectionRequest_def m2_def)
  have p1: "p1 = nextPromise s" and s1: "s1 = snd (sendWithResponse m1 ?rt s)"
    using e1 fst_sendWithResponse[of m1 ?rt s] by simp_all
  have p2: "p2 = nextPromise s + 1" and s2: "s2 = snd (sendWithResponse m2 ?rt s1)"
    using e2 fst_sendWithResponse[of m2 ?rt s1] by (simp_all add: s1 next_after_call)
  have t2: "nextTimer s1 = nextTimer s + 1" by (simp add: s1 next_after_call)
  have nm: "?rt \<noteq> ''message''" by simp
  from two_calls[OF w np nm ty(1), of m2 m1]
  have a: "settled s2 p1 = None" "settled s2 p2 = None"
      "settled (handleMessage r1 s2) p1 = Some (ResolvedWith r1)"
    and inv: "pending_inv True p2 ?rt (nextTimer s1) (handleMessage r1 s2)"
    by (simp_all add: p1 p2 s1 s2 next_after_call)
  have inv12: "pending_inv True p1 ?rt (nextTimer s) s2"
    using pending_after_call[OF w, of ?rt m1] heads_after_call[OF np, of m1]
      pending_sendWithResponse[of True p1 ?rt "nextTimer s" s1 m2 ?rt]
    by (simp add: pending_inv_def p1 s1 s2)
  have "resolved p1 (ResolvedWith r1) (nextTimer s) (handleMessage r1 s2)"
    by (rule response_resolves[OF inv12 ty(1)])
  then have "resolved p1 (ResolvedWith r1) (nextTimer s) (handleMessage r2 (handleMessage r1 s2))"
    by (rule resolved_handleMessage)
  then have b: "settled (handleMessage r2 (handleMessage r1 s2)) p1 = Some (ResolvedWith r1)"
    by (simp add: resolved_def)
  have c: "settled (handleMessage r2 (handleMessage r1 s2)) p2 = Some (ResolvedWith r2)"
    using response_resolves[OF inv ty(2)] by (simp add: resolved_def)
  from inv have ar: "armed p2 ?rt (nextTimer s1) (handleMessage r1 s2)"
    and pe: "settled (handleMessage r1 s2) p2 = None"
    by (simp_all add: pending_inv_def armed_def)
  have d: "settled (fire_timer (nextTimer s1) now mid (handleMessage r1 s2)) p2
          = Some (Rejected ''Timeout waiting for connection_response'')"
    using timeout_rejects[OF ar pe, of now mid] by simp
  show ?thesis using a b c d pe by (simp add: p1 p2)
qed

theorem second_request_waits_witness:
  "map_option
     (\<lambda>s2. (settled s2 1, settled s2 2,
            settled (handleMessage (connection_response ''s1'' ''r1'') s2) 1,
            settled (handleMessage (connection_response ''s1'' ''r1'') s2) 2,
            settled (handleMessage (connection_response ''s2'' ''r2'')
                      (handleMessage (connection_response ''s1'' ''r1'') s2)) 2))
     (exec [Connect None, Socket SockConnect, On ''connection_response'' 7,
            SendConnectionRequest ''t1'' ''m1'' ''app'' [''stt''],
            SendConnectionRequest ''t2'' ''m2'' ''app'' [''stt'']]
        (new_service (\<lambda>n. False)))
   = Some (None, None, Some (ResolvedWith (connection_response ''s1'' ''r1'')), None,
           Some (ResolvedWith (connection_response ''s2'' ''r2'')))"
  using second_request_waits
    [of "[Connect None, Socket SockConnect, On ''connection_response'' 7]" "\<lambda>n. False"
        "the (exec [Connect None, Socket SockConnect, On ''connection_response'' 7]
                (new_service (\<lambda>n. False)))"
        "''t1''" "''m1''" "''app''" "[''stt'']" 1
        "snd (sendConnectionRequest ''t1'' ''m1'' ''app'' [''stt'']
           (the (exec [Connect None, Socket SockConnect, On ''connection_response'' 7]
                (new_service (\<lambda>n. False)))))"
        "''t2''" "''m2''" "''app''" "[''stt'']" 2
        "snd (sendConnectionRequest ''t2'' ''m2'' ''app'' [''stt'']
          (snd (sendConnectionRequest ''t1'' ''m1'' ''app'' [''stt'']
           (the (exec [Connect None, Socket SockConnect, On ''connection_response'' 7]
                (new_service (\<lambda>n. False)))))))"
        "connection_response ''s1'' ''r1''" "connection_response ''s2'' ''r2''"]
  by (simp add: run_defs connection_response_def no_pending_def)

text \<open>
  The claim as stated fails when the application registers a listener for the
  response between the two calls: the first handler removes itself during the
  \<open>forEach\<close> of \<open>emit\<close>, the listener that moves into its place is skipped, and the
  second handler is called with the same message. Both promises are resolved by the one
  response, and the listener of the application is never called.
\<close>

theorem both_requests_resolve_counterexample:
  "map_option (\<lambda>s. (settled s 1, settled s 2, notified s))
     (exec [Connect None, Socket SockConnect,
            SendConnectionRequest ''t1'' ''m1'' ''app'' [''stt''],
            On ''connection_response'' 7,
            SendConnectionRequest ''t2'' ''m2'' ''app'' [''stt''],
            Socket (SockMessage ''connection_response'' (connection_response ''s1'' ''r1''))]
        (new_service (\<lambda>n. False)))
   = Some (Some (ResolvedWith (connection_response ''s1'' ''r1'')),
           Some (ResolvedWith (connection_response ''s1'' ''r1'')), [])"
  by (simp add: run_defs connection_response_def)

subsection \<open>Claim C8\<close>

text \<open>
  Claim C8, as amended. In every reachable state, \<open>disconnect\<close> leaves the message
  queue and the transmitted messages as they are, and it fails no pending request: no
  promise is settled, the listeners stay registered and every response timeout keeps
  running, so a pending request fails only when its own timer comes due.
\<close>

theorem disconnect_keeps_queue_and_pending:
  assumes reach: "exec pre (new_service f) = Some s"
  shows "messageQueue (disconnect s) = messageQueue s
     \<and> transmitted (disconnect s) = transmitted s
     \<and> settled (disconnect s) = settled s
     \<and> eventListeners (disconnect s) = eventListeners s
     \<and> (\<forall>t d p rt. timers s t = Some (ResponseTimeout d p rt)
           \<longrightarrow> timers (disconnect s) t = Some (ResponseTimeout d p rt))"
proof (cases "socket s")
  case None
  then show ?thesis by (simp add: disconnect_def)
next
  case (Some k)
  have w: "wf_service s" by (rule wf_service_reachable[OF reach])
  have hb: "timers s t = Some (ResponseTimeout d p rt) \<Longrightarrow> heartbeatInterval s \<noteq> Some t" for t d p rt
    using w unfolding wf_service_def timers_ok_def by auto
  have "timers (disconnect s) t = (if heartbeatInterval s = Some t then None else timers s t)" for t
    using Some
    by (simp add: disconnect_def Let_def timers_disconnect_handler timers_stopHeartbeat)
  then have "\<forall>t d p rt. timers s t = Some (ResponseTimeout d p rt)
           \<longrightarrow> timers (disconnect s) t = Some (ResponseTimeout d p rt)"
    using hb by simp
  moreover have "messageQueue (disconnect s) = messageQueue s"
      "transmitted (disconnect s) = transmitted s"
      "settled (disconnect s) = settled s"
      "eventListeners (disconnect s) = eventListeners s"
    using Some by (simp_all add: disconnect_def Let_def disconnect_handler_def emit_quiet)
  ultimately show ?thesis by simp
qed

theorem disconnect_keeps_queue_and_pending_witness:
  "map_option (\<lambda>s. (messageQueue (disconnect s), settled (disconnect s) 1, timers (disconnect s) 1))
     (exec [Connect None, Socket SockConnect,
            SendConnectionRequest ''2025-11-24T23:56:11.538Z'' ''m1'' ''app'' [''stt''],
            Socket (SockDisconnect ''transport close''),
            SendMessage (plain_message ''audio_start'' ''m2'')]
        (new_service (\<lambda>n. False)))
   = Some ([plain_message ''audio_start'' ''m2''], None,
           Some (ResponseTimeout 10000 1 ''connection_response''))"
  using disconnect_keeps_queue_and_pending
    [of "[Connect None, Socket SockConnect,
            SendConnectionRequest ''2025-11-24T23:56:11.538Z'' ''m1'' ''app'' [''stt''],
            Socket (SockDisconnect ''transport close''),
            SendMessage (plain_message ''audio_start'' ''m2'')]" "\<lambda>n. False"]
  by (simp add: run_defs plain_message_def)

text \<open>
  The claim as stated fails: a connection request is pending when \<open>disconnect\<close> is
  called; afterwards its promise is still unsettled, its timeout still runs and its
  handler is still registered.
\<close>

theorem disconnect_pending_counterexample:
  "map_option (\<lambda>s. (settled s 1, timers s 1, eventListeners s ''connection_response''))
     (exec [Connect None, Socket SockConnect,
            SendConnectionRequest ''2025-11-24T23:56:11.538Z'' ''m1'' ''app'' [''stt''],
            Disconnect]
        (new_service (\<lambda>n. False)))
   = Some (None, Some (ResponseTimeout 10000 1 ''connection_response''),
           Some [ResponseHandler 1 ''connection_response'' 1])"
  by (simp add: run_defs)

subsection \<open>Claim C9\<close>



subsection \<open>Claim C10\<close>

text \<open>
  Claim C10. \<open>sendMessage\<close> never drops a message: either the socket is connected and
  the emit does not throw, and the message is the last one transmitted; or it is
  appended to the queue.
\<close>

theorem sendMessage_sent_or_queued:
  "(isConnected s \<and> \<not> emitThrows s (emitAttempts s)
      \<and> transmitted (sendMessage m s) = transmitted s @ [m]
      \<and> messageQueue (sendMessage m s) = messageQueue s)
   \<or> ((\<not> isConnected s \<or> emitThrows s (emitAttempts s))
      \<and> messageQueue (sendMessage m s) = messageQueue s @ [m]
      \<and> transmitted (sendMessage m s) = transmitted s)"
  by (simp add: sendMessage_def socket_emit_def Let_def)

theorem sendMessage_sent_or_queued_witness:
  "messageQueue (sendMessage (plain_message ''audio_start'' ''m1'') (new_service (\<lambda>n. False)))
     = [plain_message ''audio_start'' ''m1'']
   \<and> transmitted (sendMessage (plain_message ''audio_start'' ''m1'') (new_service (\<lambda>n. False))) = []"
  using sendMessage_sent_or_queued
    [of "new_service (\<lambda>n. False)" "plain_message ''audio_start'' ''m1''"]
  by (simp add: new_service_def isConnected_def)

end
